theory Spec2Isabelle
  imports Main
begin

section \<open>Data model (types.ts)\<close>

text \<open>
  The difficulty presets, the cell and the game status are taken from \<^verbatim>\<open>types.ts\<close>.
  The component state of \<^verbatim>\<open>Minesweeper.tsx\<close> (the \<^verbatim>\<open>useState\<close> hooks and the timer
  ref) is the record \<open>Game\<close>. An event handler reads the state of the render it was created
  in and queues its updates, so a handler is a function from the rendered state to the next
  state: every read of \<^verbatim>\<open>status\<close> or \<^verbatim>\<open>grid\<close> inside a handler is a read of its argument.
  The ref \<^verbatim>\<open>timerRef.current\<close> is mutated at once; \<open>timerRef\<close> says whether it holds a
  handle and \<open>ticking\<close> whether an interval is live. The callback of the interval, which
  adds a second to \<open>timer\<close>, runs in real time and is left out.
\<close>

datatype Difficulty = Beginner | Intermediate | Expert

record GameConfig =
  rows :: nat
  cols :: nat
  mines :: nat

fun DIFFICULTIES :: "Difficulty \<Rightarrow> GameConfig" where
  "DIFFICULTIES Beginner = \<lparr>rows = 9, cols = 9, mines = 10\<rparr>"
| "DIFFICULTIES Intermediate = \<lparr>rows = 16, cols = 16, mines = 40\<rparr>"
| "DIFFICULTIES Expert = \<lparr>rows = 16, cols = 30, mines = 99\<rparr>"

record Cell =
  row :: nat
  col :: nat
  isMine :: bool
  isRevealed :: bool
  isFlagged :: bool
  neighborMines :: nat

datatype GameStatus = Idle | Playing | Won | Lost

type_synonym grid = "Cell list list"

record Game =
  difficulty :: Difficulty
  grid :: grid
  status :: GameStatus
  mineCount :: int
  timer :: nat
  timerRef :: bool
  ticking :: bool

text \<open>
  \<^verbatim>\<open>grid[r][c]\<close> followed by a property access: outside the array the access throws a
  TypeError, which is \<open>None\<close> here. Every operation below returns \<open>None\<close> when the
  source produces no next state (it throws, or the placement loop has used up the random
  draws it was given and is still running).
\<close>

definition cellAt :: "grid \<Rightarrow> int \<Rightarrow> int \<Rightarrow> Cell option" where
  "cellAt g r c =
     (if 0 \<le> r \<and> r < int (length g) \<and> 0 \<le> c \<and> c < int (length (g ! nat r))
      then Some (g ! nat r ! nat c) else None)"

definition setCell :: "grid \<Rightarrow> nat \<Rightarrow> nat \<Rightarrow> Cell \<Rightarrow> grid" where
  "setCell g r c x = g[r := (g ! r)[c := x]]"

definition initGrid :: "GameConfig \<Rightarrow> grid" where
  "initGrid config =
     map (\<lambda>r. map (\<lambda>c. \<lparr>row = r, col = c, isMine = False, isRevealed = False,
                          isFlagged = False, neighborMines = 0\<rparr>) [0..<cols config])
         [0..<rows config]"

definition startTimer :: "Game \<Rightarrow> Game" where
  "startTimer s = (if timerRef s then s else s\<lparr>timerRef := True, ticking := True\<rparr>)"

definition stopTimer :: "Game \<Rightarrow> Game" where
  "stopTimer s = (if timerRef s then s\<lparr>ticking := False, timerRef := False\<rparr> else s)"

definition startGame :: "Game \<Rightarrow> Game" where
  "startGame s =
     (let config = DIFFICULTIES (difficulty s);
          s1 = s\<lparr>grid := initGrid config, status := Idle,
                 mineCount := int (mines config), timer := 0\<rparr>
      in if timerRef s1 then s1\<lparr>ticking := False\<rparr> else s1)"

text \<open>The pairs \<open>(dr, dc)\<close> in the order of the two nested \<^verbatim>\<open>for\<close> loops.\<close>

definition offsets :: "(int \<times> int) list" where
  "offsets = List.product [-1, 0, 1] [-1, 0, 1]"

definition revealMines :: "grid \<Rightarrow> grid" where
  "revealMines g = map (map (\<lambda>cell. if isMine cell then cell\<lparr>isRevealed := True\<rparr> else cell)) g"

definition unrevealedCount :: "grid \<Rightarrow> nat" where
  "unrevealedCount g =
     fold (\<lambda>rw n. fold (\<lambda>cell n. if \<not> isRevealed cell then n + 1 else n) rw n) g 0"

text \<open>
  The inner closure \<^verbatim>\<open>reveal\<close> of \<^verbatim>\<open>revealCell\<close>. It mutates the local copy
  \<^verbatim>\<open>newGrid\<close> and calls \<^verbatim>\<open>setStatus\<close> and \<^verbatim>\<open>stopTimer\<close>; both are threaded through.
  \<open>revealAround\<close> is the double loop over the eight neighbours and the cell itself.
\<close>

function reveal :: "grid \<Rightarrow> Game \<Rightarrow> int \<Rightarrow> int \<Rightarrow> (grid \<times> Game) option"
  and revealAround :: "grid \<Rightarrow> Game \<Rightarrow> int \<Rightarrow> int \<Rightarrow> (int \<times> int) list \<Rightarrow> (grid \<times> Game) option"
  where
  "reveal g s rw cl =
     (if rw < 0 \<or> rw \<ge> int (length g) \<or> cl < 0 \<or> cl \<ge> int (length (g ! 0)) then Some (g, s)
      else case cellAt g rw cl of
        None \<Rightarrow> None
      | Some x \<Rightarrow>
          if isRevealed x \<or> isFlagged x then Some (g, s)
          else let g1 = setCell g (nat rw) (nat cl) (x\<lparr>isRevealed := True\<rparr>) in
            if isMine x then Some (revealMines g1, stopTimer (s\<lparr>status := Lost\<rparr>))
            else if neighborMines x = 0 then revealAround g1 s rw cl offsets
            else Some (g1, s))"
| "revealAround g s rw cl [] = Some (g, s)"
| "revealAround g s rw cl ((dr, dc) # ds) =
     (case reveal g s (rw + dr) (cl + dc) of
        None \<Rightarrow> None
      | Some (g', s') \<Rightarrow> revealAround g' s' rw cl ds)"
  by pat_completeness auto

section \<open>Mine placement\<close>

text \<open>
  \<^verbatim>\<open>Math.random\<close> is a list of draws \<open>(r, c)\<close>, each the pair of floored products of one
  iteration of the \<^verbatim>\<open>while\<close> loop; a draw of the source is below \<open>rows\<close> and \<open>cols\<close>. The
  loop has no bound in the source; with the draws used up before the quota is met the result
  is \<open>None\<close>.
\<close>

fun placeLoop :: "GameConfig \<Rightarrow> nat \<Rightarrow> nat \<Rightarrow> (nat \<times> nat) list \<Rightarrow> nat \<Rightarrow> grid \<Rightarrow> grid option" where
  "placeLoop config firstRow firstCol draws minesPlaced g =
     (if minesPlaced < mines config then
        (case draws of
           [] \<Rightarrow> None
         | (r, c) # rest \<Rightarrow>
             (case cellAt g (int r) (int c) of
                None \<Rightarrow> None
              | Some x \<Rightarrow>
                  if \<not> isMine x \<and>
                     \<not> (\<bar>int r - int firstRow\<bar> \<le> 1 \<and> \<bar>int c - int firstCol\<bar> \<le> 1)
                  then placeLoop config firstRow firstCol rest (minesPlaced + 1)
                         (setCell g r c (x\<lparr>isMine := True\<rparr>))
                  else placeLoop config firstRow firstCol rest minesPlaced g))
      else Some g)"

declare placeLoop.simps [simp del]

definition countStep :: "GameConfig \<Rightarrow> grid \<Rightarrow> nat \<Rightarrow> nat \<Rightarrow> int \<times> int \<Rightarrow> nat option \<Rightarrow> nat option" where
  "countStep config g r c = (\<lambda>(dr, dc) acc.
     case acc of
       None \<Rightarrow> None
     | Some count \<Rightarrow>
         (let nr = int r + dr; nc = int c + dc in
          if nr \<ge> 0 \<and> nr < int (rows config) \<and> nc \<ge> 0 \<and> nc < int (cols config) then
            (case cellAt g nr nc of
               None \<Rightarrow> None
             | Some x \<Rightarrow> Some (if isMine x then count + 1 else count))
          else Some count))"

definition countMines :: "GameConfig \<Rightarrow> grid \<Rightarrow> nat \<Rightarrow> nat \<Rightarrow> nat option" where
  "countMines config g r c = fold (countStep config g r c) offsets (Some 0)"

definition setCount :: "GameConfig \<Rightarrow> grid \<Rightarrow> nat \<Rightarrow> nat \<Rightarrow> grid option" where
  "setCount config g r c =
     (case cellAt g (int r) (int c) of
        None \<Rightarrow> None
      | Some x \<Rightarrow>
          if \<not> isMine x then
            (case countMines config g r c of
               None \<Rightarrow> None
             | Some count \<Rightarrow> Some (setCell g r c (x\<lparr>neighborMines := count\<rparr>)))
          else Some g)"

definition countRow :: "GameConfig \<Rightarrow> nat \<Rightarrow> grid option \<Rightarrow> grid option" where
  "countRow config r acc =
     fold (\<lambda>c acc. case acc of None \<Rightarrow> None | Some g \<Rightarrow> setCount config g r c)
          [0..<cols config] acc"

definition computeCounts :: "GameConfig \<Rightarrow> grid \<Rightarrow> grid option" where
  "computeCounts config g = fold (countRow config) [0..<rows config] (Some g)"

definition placeMines :: "Difficulty \<Rightarrow> grid \<Rightarrow> nat \<Rightarrow> nat \<Rightarrow> (nat \<times> nat) list \<Rightarrow> grid option" where
  "placeMines d initialGrid firstRow firstCol draws =
     (let config = DIFFICULTIES d in
      case placeLoop config firstRow firstCol draws 0 initialGrid of
        None \<Rightarrow> None
      | Some newGrid \<Rightarrow> computeCounts config newGrid)"

section \<open>The handlers\<close>

text \<open>
  \<^verbatim>\<open>status\<close> in the last test of \<^verbatim>\<open>revealCell\<close> is the constant of the render, the
  same value the first line has tested: the calls of \<^verbatim>\<open>setStatus\<close> inside
  \<^verbatim>\<open>reveal\<close> do not change it. Of several \<^verbatim>\<open>setStatus\<close> calls in one handler the last
  one is the next status.
\<close>

definition revealCell :: "(nat \<times> nat) list \<Rightarrow> Game \<Rightarrow> nat \<Rightarrow> nat \<Rightarrow> Game option" where
  "revealCell draws s r c =
     (if status s = Won \<or> status s = Lost then Some s
      else case cellAt (grid s) (int r) (int c) of
        None \<Rightarrow> None
      | Some x \<Rightarrow>
          if isRevealed x \<or> isFlagged x then Some s
          else
            (case (if status s = Idle
                   then map_option (\<lambda>g. (g, startTimer (s\<lparr>status := Playing\<rparr>)))
                          (placeMines (difficulty s) (grid s) r c draws)
                   else Some (grid s, s)) of
               None \<Rightarrow> None
             | Some (currentGrid, s1) \<Rightarrow>
                 (case reveal currentGrid s1 (int r) (int c) of
                    None \<Rightarrow> None
                  | Some (newGrid, s2) \<Rightarrow>
                      (let s3 = s2\<lparr>grid := newGrid\<rparr> in
                       if status s \<noteq> Lost then
                         (let config = DIFFICULTIES (difficulty s) in
                          if unrevealedCount newGrid = mines config
                          then Some (stopTimer (s3\<lparr>status := Won\<rparr>))
                          else Some s3)
                       else Some s3))))"

definition toggleFlag :: "Game \<Rightarrow> nat \<Rightarrow> nat \<Rightarrow> Game option" where
  "toggleFlag s r c =
     (if status s = Won \<or> status s = Lost then Some s
      else case cellAt (grid s) (int r) (int c) of
        None \<Rightarrow> None
      | Some x \<Rightarrow>
          if isRevealed x then Some s
          else
            (let flagged = \<not> isFlagged x;
                 newGrid = setCell (grid s) r c (x\<lparr>isFlagged := flagged\<rparr>)
             in Some (s\<lparr>grid := newGrid,
                        mineCount := (if flagged then mineCount s - 1 else mineCount s + 1)\<rparr>)))"

section \<open>Counting cells, and termination of the flood fill\<close>

lemma fold_count:
  "fold (\<lambda>x n. if P x then n + 1 else n) xs (k::nat) = k + length (filter P xs)"
  by (induction xs arbitrary: k) auto

lemma fold_fold_count:
  "fold (\<lambda>rw n. fold (\<lambda>x n. if P x then n + 1 else n) rw n) g (k::nat)
     = k + length (filter P (concat g))"
  by (induction g arbitrary: k) (auto simp: fold_count)

lemma unrevealedCount_alt:
  "unrevealedCount g = length (filter (\<lambda>x. \<not> isRevealed x) (concat g))"
  by (simp add: unrevealedCount_def fold_fold_count)

lemma filter_update_count:
  "i < length xs \<Longrightarrow>
     length (filter P (xs[i := y])) + (if P (xs ! i) then 1 else 0)
       = length (filter P xs) + (if P y then 1 else 0)"
proof (induction xs arbitrary: i)
  case Nil
  then show ?case by simp
next
  case (Cons a xs)
  then show ?case by (cases i) auto
qed

lemma concat_update_count:
  "r < length g \<Longrightarrow>
     length (filter P (concat (g[r := ys]))) + length (filter P (g ! r))
       = length (filter P (concat g)) + length (filter P ys)"
proof (induction g arbitrary: r)
  case Nil
  then show ?case by simp
next
  case (Cons a g)
  then show ?case by (cases r) auto
qed

lemma setCell_count:
  assumes "r < length g" "c < length (g ! r)"
  shows "length (filter P (concat (setCell g r c y))) + (if P (g ! r ! c) then 1 else 0)
           = length (filter P (concat g)) + (if P y then 1 else 0)"
  using concat_update_count[OF assms(1), of P "(g ! r)[c := y]"]
        filter_update_count[OF assms(2), of P y]
  by (simp add: setCell_def)

lemma cellAt_SomeD:
  "cellAt g r c = Some x \<Longrightarrow>
     0 \<le> r \<and> 0 \<le> c \<and> nat r < length g \<and> nat c < length (g ! nat r) \<and> x = g ! nat r ! nat c"
  by (auto simp: cellAt_def split: if_splits)

lemma unrevealed_setCell_revealed:
  assumes "cellAt g r c = Some x" "\<not> isRevealed x"
  shows "unrevealedCount (setCell g (nat r) (nat c) (x\<lparr>isRevealed := True\<rparr>)) < unrevealedCount g"
proof -
  from cellAt_SomeD[OF assms(1)] have b: "nat r < length g" "nat c < length (g ! nat r)"
    and x: "x = g ! nat r ! nat c" by auto
  show ?thesis
    using setCell_count[OF b, of "\<lambda>x. \<not> isRevealed x" "x\<lparr>isRevealed := True\<rparr>"] assms(2) x
    by (simp add: unrevealedCount_alt)
qed

lemma filter_map_le:
  "(\<And>x. P (f x) \<Longrightarrow> P x) \<Longrightarrow> length (filter P (map f xs)) \<le> length (filter P xs)"
  by (induction xs) auto

lemma unrevealed_revealMines: "unrevealedCount (revealMines g) \<le> unrevealedCount g"
  unfolding unrevealedCount_alt revealMines_def map_concat[symmetric]
  by (rule filter_map_le) (simp split: if_splits)

text \<open>
  Partial correctness needed for termination: wherever the recursion is defined, a reveal
  never increases the number of unrevealed cells.
\<close>

lemma reveal_unrevealed_dom:
  "reveal_revealAround_dom (Inl (g, s, rw, cl)) \<Longrightarrow>
     reveal g s rw cl = Some (g', s') \<Longrightarrow> unrevealedCount g' \<le> unrevealedCount g"
  "reveal_revealAround_dom (Inr (g, s, rw, cl, ds)) \<Longrightarrow>
     revealAround g s rw cl ds = Some (g', s') \<Longrightarrow> unrevealedCount g' \<le> unrevealedCount g"
proof (induction g s rw cl and g s rw cl ds arbitrary: g' s' and g' s' rule: reveal_revealAround.pinduct)
  case (1 g s rw cl)
  show ?case
  proof (cases "rw < 0 \<or> rw \<ge> int (length g) \<or> cl < 0 \<or> cl \<ge> int (length (g ! 0))")
    case True
    with 1(1,3) show ?thesis by (simp add: reveal.psimps)
  next
    case nb: False
    then obtain x where x: "cellAt g rw cl = Some x"
      using 1(1,3) by (cases "cellAt g rw cl") (auto simp: reveal.psimps)
    show ?thesis
    proof (cases "isRevealed x \<or> isFlagged x")
      case True
      with nb x 1(1,3) show ?thesis by (simp add: reveal.psimps)
    next
      case ok: False
      let ?g1 = "setCell g (nat rw) (nat cl) (x\<lparr>isRevealed := True\<rparr>)"
      have lt: "unrevealedCount ?g1 < unrevealedCount g"
        using unrevealed_setCell_revealed[OF x] ok by simp
      show ?thesis
      proof (cases "isMine x")
        case True
        with nb x ok 1(1,3) have "g' = revealMines ?g1" by (simp add: reveal.psimps Let_def)
        with lt unrevealed_revealMines[of ?g1] show ?thesis by simp
      next
        case nm: False
        show ?thesis
        proof (cases "neighborMines x = 0")
          case True
          with nb x ok nm 1(1,3) have "revealAround ?g1 s rw cl offsets = Some (g', s')"
            by (simp add: reveal.psimps Let_def)
          from 1(2)[OF nb x ok refl nm True this] lt show ?thesis by simp
        next
          case False
          with nb x ok nm 1(1,3) have "g' = ?g1" by (simp add: reveal.psimps Let_def)
          with lt show ?thesis by simp
        qed
      qed
    qed
  qed
next
  case (2 g s rw cl)
  then show ?case by (simp add: revealAround.psimps)
next
  case (3 g s rw cl dr dc ds)
  from 3(1,4) obtain g1 s1 where r1: "reveal g s (rw + dr) (cl + dc) = Some (g1, s1)"
    and r2: "revealAround g1 s1 rw cl ds = Some (g', s')"
    by (auto simp: revealAround.psimps split: option.splits)
  from 3(2)[OF r1] 3(3)[OF r1 refl r2] show ?case by simp
qed

termination reveal
proof (relation "inv_image (less_than <*lex*> less_than)
    (\<lambda>x. case x of Inl (g, s, rw, cl) \<Rightarrow> (unrevealedCount g, 0::nat)
                 | Inr (g, s, rw, cl, ds) \<Rightarrow> (unrevealedCount g, Suc (length ds)))", goal_cases)
  case 1
  show ?case by auto
next
  case (2 g s rw cl x2 x)
  then show ?case using unrevealed_setCell_revealed[of g rw cl x2] by simp
next
  case (3 g s rw cl dr dc ds)
  then show ?case by simp
next
  case (4 g s rw cl dr dc ds x2 x y)
  then show ?case using reveal_unrevealed_dom(1)[of g s "rw + dr" "cl + dc" x y]
    by (auto simp: le_less)
qed

declare reveal.simps [simp del]

section \<open>Shape of a board\<close>

definition hasDims :: "GameConfig \<Rightarrow> grid \<Rightarrow> bool" where
  "hasDims config g \<longleftrightarrow> length g = rows config \<and> list_all (\<lambda>rw. length rw = cols config) g"

lemma hasDims_initGrid: "hasDims config (initGrid config)"
  by (simp add: hasDims_def initGrid_def list_all_iff)

lemma initGrid_nth:
  "r < rows config \<Longrightarrow> c < cols config \<Longrightarrow>
     initGrid config ! r ! c =
       \<lparr>row = r, col = c, isMine = False, isRevealed = False, isFlagged = False, neighborMines = 0\<rparr>"
  by (simp add: initGrid_def)

section \<open>Boards related cell by cell\<close>

text \<open>
  Every operation keeps the shape of the board and changes single fields of cells;
  \<open>cellsRel R g g'\<close> says that the two boards have the same shape and that \<open>R\<close> relates the
  cells at every position.
\<close>

definition cellsRel :: "(nat \<Rightarrow> nat \<Rightarrow> Cell \<Rightarrow> Cell \<Rightarrow> bool) \<Rightarrow> grid \<Rightarrow> grid \<Rightarrow> bool" where
  "cellsRel R g g' \<longleftrightarrow>
     map length g' = map length g \<and>
     (\<forall>i < length g. \<forall>j < length (g ! i). R i j (g ! i ! j) (g' ! i ! j))"

lemma cellsRel_length: "cellsRel R g g' \<Longrightarrow> length g' = length g"
  unfolding cellsRel_def by (metis length_map)

lemma cellsRel_length_nth: "cellsRel R g g' \<Longrightarrow> i < length g \<Longrightarrow> length (g' ! i) = length (g ! i)"
  unfolding cellsRel_def by (metis length_map nth_map)

lemma cellsRel_nth:
  "cellsRel R g g' \<Longrightarrow> i < length g \<Longrightarrow> j < length (g ! i) \<Longrightarrow> R i j (g ! i ! j) (g' ! i ! j)"
  unfolding cellsRel_def by blast

lemma hasDims_iff: "hasDims config g \<longleftrightarrow> map length g = replicate (rows config) (cols config)"
proof
  assume "hasDims config g"
  then show "map length g = replicate (rows config) (cols config)"
    by (auto simp: hasDims_def list_all_iff intro!: nth_equalityI)
next
  assume h: "map length g = replicate (rows config) (cols config)"
  then have l: "length g = rows config" by (metis length_map length_replicate)
  have "\<forall>x \<in> set (map length g). x = cols config" unfolding h by simp
  with l show "hasDims config g" by (simp add: hasDims_def list_all_iff)
qed

lemma hasDims_nth: "hasDims config g \<Longrightarrow> r < rows config \<Longrightarrow> length (g ! r) = cols config"
  by (simp add: hasDims_def list_all_length)

lemma hasDims_length: "hasDims config g \<Longrightarrow> length g = rows config"
  by (simp add: hasDims_def)

lemma cellsRel_hasDims: "cellsRel R g g' \<Longrightarrow> hasDims config g \<Longrightarrow> hasDims config g'"
  by (simp add: hasDims_iff cellsRel_def)

lemma cellsRel_refl: "(\<And>i j x. R i j x x) \<Longrightarrow> cellsRel R g g"
  by (simp add: cellsRel_def)

lemma cellsRel_trans:
  assumes "cellsRel R g g'" "cellsRel S g' g''"
    and "\<And>i j x y z. R i j x y \<Longrightarrow> S i j y z \<Longrightarrow> T i j x z"
  shows "cellsRel T g g''"
  unfolding cellsRel_def
proof (intro conjI allI impI)
  show "map length g'' = map length g" using assms(1,2) by (simp add: cellsRel_def)
next
  fix i j assume ij: "i < length g" "j < length (g ! i)"
  have i': "i < length g'" using ij(1) cellsRel_length[OF assms(1)] by simp
  have j': "j < length (g' ! i)" using ij cellsRel_length_nth[OF assms(1)] by simp
  show "T i j (g ! i ! j) (g'' ! i ! j)"
    using assms(3)[OF cellsRel_nth[OF assms(1) ij] cellsRel_nth[OF assms(2) i' j']] .
qed

lemma cellsRel_mono:
  "cellsRel R g g' \<Longrightarrow> (\<And>i j x y. R i j x y \<Longrightarrow> S i j x y) \<Longrightarrow> cellsRel S g g'"
  unfolding cellsRel_def by blast

lemma map_length_setCell: "map length (setCell g r c y) = map length g"
  proof (rule nth_equalityI)
  show "length (map length (setCell g r c y)) = length (map length g)" by (simp add: setCell_def)
next
  fix i assume "i < length (map length (setCell g r c y))"
  then show "map length (setCell g r c y) ! i = map length g ! i"
    by (cases "i = r") (simp_all add: setCell_def)
qed

lemma setCell_nth:
  "r < length g \<Longrightarrow> c < length (g ! r) \<Longrightarrow>
     setCell g r c y ! i ! j = (if i = r \<and> j = c then y else g ! i ! j)"
  by (auto simp: setCell_def nth_list_update)

lemma cellsRel_setCell:
  assumes "r < length g" "c < length (g ! r)" "R r c (g ! r ! c) y" "\<And>i j x. R i j x x"
  shows "cellsRel R g (setCell g r c y)"
  unfolding cellsRel_def using assms by (simp add: map_length_setCell setCell_nth)

lemma cellsRel_map: "(\<And>i j x. R i j x (f x)) \<Longrightarrow> cellsRel R g (map (map f) g)"
  by (simp add: cellsRel_def comp_def)

lemma cellAt_Some_iff:
  "cellAt g rw cl = Some x \<longleftrightarrow>
     0 \<le> rw \<and> 0 \<le> cl \<and> nat rw < length g \<and> nat cl < length (g ! nat rw) \<and> x = g ! nat rw ! nat cl"
  by (auto simp: cellAt_def)

lemma cellAt_nat: "r < length g \<Longrightarrow> c < length (g ! r) \<Longrightarrow> cellAt g (int r) (int c) = Some (g ! r ! c)"
  by (simp add: cellAt_def)

lemma cellsRel_cellAt:
  assumes "cellsRel R g g'" "cellAt g rw cl = Some x"
  shows "\<exists>y. cellAt g' rw cl = Some y \<and> R (nat rw) (nat cl) x y"
proof -
  from assms(2) have b: "0 \<le> rw" "0 \<le> cl" "nat rw < length g" "nat cl < length (g ! nat rw)"
    and x: "x = g ! nat rw ! nat cl" by (auto simp: cellAt_Some_iff)
  have "cellAt g' rw cl = Some (g' ! nat rw ! nat cl)"
    using b cellsRel_length[OF assms(1)] cellsRel_length_nth[OF assms(1) b(3)]
    by (simp add: cellAt_Some_iff)
  with cellsRel_nth[OF assms(1) b(3,4)] x show ?thesis by simp
qed

lemma cellsRel_cellAt_None:
  assumes "cellsRel R g g'" "cellAt g rw cl = None"
  shows "cellAt g' rw cl = None"
proof (cases "0 \<le> rw \<and> nat rw < length g")
  case True
  then show ?thesis
    using assms cellsRel_length[OF assms(1)] cellsRel_length_nth[OF assms(1), of "nat rw"]
    by (auto simp: cellAt_def split: if_splits)
next
  case False
  then show ?thesis using cellsRel_length[OF assms(1)] by (auto simp: cellAt_def)
qed

section \<open>Properties of the placement loop\<close>

definition mineTotal :: "grid \<Rightarrow> nat" where
  "mineTotal g = length (filter isMine (concat g))"

definition inZone :: "nat \<Rightarrow> nat \<Rightarrow> nat \<Rightarrow> nat \<Rightarrow> bool" where
  "inZone firstRow firstCol r c \<longleftrightarrow>
     \<bar>int r - int firstRow\<bar> \<le> 1 \<and> \<bar>int c - int firstCol\<bar> \<le> 1"

definition drawsInRange :: "GameConfig \<Rightarrow> (nat \<times> nat) list \<Rightarrow> bool" where
  "drawsInRange config draws \<longleftrightarrow> list_all (\<lambda>(r, c). r < rows config \<and> c < cols config) draws"

text \<open>What the placement loop may do to a cell: set \<open>isMine\<close>, and only outside the zone.\<close>

definition mined :: "nat \<Rightarrow> nat \<Rightarrow> nat \<Rightarrow> nat \<Rightarrow> Cell \<Rightarrow> Cell \<Rightarrow> bool" where
  "mined firstRow firstCol i j x y \<longleftrightarrow>
     y = x\<lparr>isMine := isMine y\<rparr> \<and> (isMine x \<longrightarrow> isMine y) \<and>
     (isMine y \<and> \<not> isMine x \<longrightarrow> \<not> inZone firstRow firstCol i j)"

lemma mined_refl: "mined fr fc i j x x"
  by (simp add: mined_def)

lemma mined_trans: "mined fr fc i j x y \<Longrightarrow> mined fr fc i j y z \<Longrightarrow> mined fr fc i j x z"
  unfolding mined_def by (cases x, cases y, cases z) auto

lemma placeLoop_Nil:
  "placeLoop config fr fc [] k g = (if k < mines config then None else Some g)"
  by (simp add: placeLoop.simps)

lemma placeLoop_done: "\<not> k < mines config \<Longrightarrow> placeLoop config fr fc ds k g = Some g"
  by (simp add: placeLoop.simps)

lemma placeLoop_Cons:
  "k < mines config \<Longrightarrow>
   placeLoop config fr fc ((r, c) # rest) k g =
     (case cellAt g (int r) (int c) of
        None \<Rightarrow> None
      | Some x \<Rightarrow>
          if \<not> isMine x \<and> \<not> inZone fr fc r c
          then placeLoop config fr fc rest (k + 1) (setCell g r c (x\<lparr>isMine := True\<rparr>))
          else placeLoop config fr fc rest k g)"
  unfolding inZone_def by (subst placeLoop.simps) simp

lemma placeLoop_rel:
  "placeLoop config fr fc ds k g = Some g' \<Longrightarrow> cellsRel (mined fr fc) g g'"
proof (induction ds arbitrary: k g)
  case Nil
  then show ?case by (auto simp: placeLoop_Nil split: if_splits intro: cellsRel_refl mined_refl)
next
  case (Cons d ds)
  obtain r c where d: "d = (r, c)" by (cases d)
  show ?case
  proof (cases "k < mines config")
    case False
    with Cons.prems show ?thesis by (auto simp: placeLoop_done intro: cellsRel_refl mined_refl)
  next
    case True
    from Cons.prems True d obtain x where x: "cellAt g (int r) (int c) = Some x"
      by (cases "cellAt g (int r) (int c)") (auto simp: placeLoop_Cons)
    then have b: "r < length g" "c < length (g ! r)" and xe: "x = g ! r ! c"
      by (auto simp: cellAt_Some_iff)
    show ?thesis
    proof (cases "\<not> isMine x \<and> \<not> inZone fr fc r c")
      case acc: True
      let ?g1 = "setCell g r c (x\<lparr>isMine := True\<rparr>)"
      from Cons.prems True d x acc have "placeLoop config fr fc ds (k + 1) ?g1 = Some g'"
        by (simp add: placeLoop_Cons)
      from Cons.IH[OF this] have r2: "cellsRel (mined fr fc) ?g1 g'" .
      have r1: "cellsRel (mined fr fc) g ?g1"
        by (rule cellsRel_setCell[OF b]) (use acc xe in \<open>auto simp: mined_def\<close>)
      show ?thesis by (rule cellsRel_trans[OF r1 r2]) (rule mined_trans)
    next
      case False
      with Cons.prems True d x have "placeLoop config fr fc ds k g = Some g'"
        by (auto simp: placeLoop_Cons)
      from Cons.IH[OF this] show ?thesis .
    qed
  qed
qed

lemma mineTotal_setCell:
  assumes "r < length g" "c < length (g ! r)" "\<not> isMine (g ! r ! c)"
  shows "mineTotal (setCell g r c ((g ! r ! c)\<lparr>isMine := True\<rparr>)) = Suc (mineTotal g)"
  using setCell_count[OF assms(1,2), of isMine "(g ! r ! c)\<lparr>isMine := True\<rparr>"] assms(3)
  by (simp add: mineTotal_def)

lemma placeLoop_total:
  "placeLoop config fr fc ds k g = Some g' \<Longrightarrow> k \<le> mines config \<Longrightarrow>
     mineTotal g' + k = mineTotal g + mines config"
proof (induction ds arbitrary: k g)
  case Nil
  then show ?case by (auto simp: placeLoop_Nil split: if_splits)
next
  case (Cons d ds)
  obtain r c where d: "d = (r, c)" by (cases d)
  show ?case
  proof (cases "k < mines config")
    case False
    with Cons.prems show ?thesis by (auto simp: placeLoop_done)
  next
    case True
    from Cons.prems True d obtain x where x: "cellAt g (int r) (int c) = Some x"
      by (cases "cellAt g (int r) (int c)") (auto simp: placeLoop_Cons)
    then have b: "r < length g" "c < length (g ! r)" and xe: "x = g ! r ! c"
      by (auto simp: cellAt_Some_iff)
    show ?thesis
    proof (cases "\<not> isMine x \<and> \<not> inZone fr fc r c")
      case acc: True
      let ?g1 = "setCell g r c (x\<lparr>isMine := True\<rparr>)"
      from Cons.prems True d x acc have "placeLoop config fr fc ds (k + 1) ?g1 = Some g'"
        by (simp add: placeLoop_Cons)
      from Cons.IH[OF this] True have "mineTotal g' + (k + 1) = mineTotal ?g1 + mines config"
        by simp
      moreover have "mineTotal ?g1 = Suc (mineTotal g)"
        using mineTotal_setCell[OF b] acc xe by simp
      ultimately show ?thesis by simp
    next
      case False
      with Cons.prems True d x have "placeLoop config fr fc ds k g = Some g'"
        by (auto simp: placeLoop_Cons)
      from Cons.IH[OF this] Cons.prems(2) show ?thesis by simp
    qed
  qed
qed

text \<open>
  Progress: the loop returns as soon as the draws hold enough different cells that are
  outside the zone and not yet mined.
\<close>

definition fresh :: "nat \<Rightarrow> nat \<Rightarrow> grid \<Rightarrow> (nat \<times> nat) list \<Rightarrow> (nat \<times> nat) set" where
  "fresh fr fc g ds = {(r, c). (r, c) \<in> set ds \<and> \<not> inZone fr fc r c \<and> \<not> isMine (g ! r ! c)}"

lemma finite_fresh: "finite (fresh fr fc g ds)"
  by (rule finite_subset[of _ "set ds"]) (auto simp: fresh_def)

lemma placeLoop_progress:
  "hasDims config g \<Longrightarrow> drawsInRange config ds \<Longrightarrow>
   mines config \<le> k + card (fresh fr fc g ds) \<Longrightarrow>
   \<exists>g'. placeLoop config fr fc ds k g = Some g'"
proof (induction ds arbitrary: k g)
  case Nil
  then show ?case by (simp add: placeLoop_Nil fresh_def)
next
  case (Cons d ds)
  obtain r c where d: "d = (r, c)" by (cases d)
  show ?case
  proof (cases "k < mines config")
    case False
    then show ?thesis by (simp add: placeLoop_done)
  next
    case True
    from Cons.prems(2) d have rg: "r < rows config" "c < cols config"
      and dr: "drawsInRange config ds" by (auto simp: drawsInRange_def)
    have b: "r < length g" "c < length (g ! r)"
      using Cons.prems(1) rg by (simp_all add: hasDims_length hasDims_nth)
    then have x: "cellAt g (int r) (int c) = Some (g ! r ! c)" by (rule cellAt_nat)
    show ?thesis
    proof (cases "\<not> isMine (g ! r ! c) \<and> \<not> inZone fr fc r c")
      case acc: True
      let ?g1 = "setCell g r c ((g ! r ! c)\<lparr>isMine := True\<rparr>)"
      have hd: "hasDims config ?g1"
        using Cons.prems(1) by (simp add: hasDims_iff map_length_setCell)
      have sub: "fresh fr fc g (d # ds) - {(r, c)} \<subseteq> fresh fr fc ?g1 ds"
        using b by (auto simp: fresh_def d setCell_nth)
      have "card (fresh fr fc g (d # ds)) \<le> Suc (card (fresh fr fc g (d # ds) - {(r, c)}))"
        using finite_fresh[of fr fc g "d # ds"]
        by (metis card_Diff_singleton_if diff_le_self le_SucI Suc_diff_1 card_gt_0_iff empty_iff le_refl not_less_eq_eq)
      also have "\<dots> \<le> Suc (card (fresh fr fc ?g1 ds))"
        using card_mono[OF finite_fresh sub] by simp
      finally have "mines config \<le> (k + 1) + card (fresh fr fc ?g1 ds)"
        using Cons.prems(3) by simp
      from Cons.IH[OF hd dr this] show ?thesis
        using True d x acc by (simp add: placeLoop_Cons)
    next
      case False
      then have "fresh fr fc g (d # ds) = fresh fr fc g ds"
        by (auto simp: fresh_def d)
      with Cons.prems(3) have "mines config \<le> k + card (fresh fr fc g ds)" by simp
      from Cons.IH[OF Cons.prems(1) dr this] show ?thesis
        using True d x False by (auto simp: placeLoop_Cons)
    qed
  qed
qed

section \<open>Properties of the neighbour counts\<close>

text \<open>
  The reference count: the number of mine cells among the up to eight neighbours of
  \<open>(r, c)\<close> that lie on the board.
\<close>

definition mineNeighbours :: "grid \<Rightarrow> nat \<Rightarrow> nat \<Rightarrow> nat" where
  "mineNeighbours g r c =
     card {(nr, nc). nr < length g \<and> nc < length (g ! nr) \<and> (nr, nc) \<noteq> (r, c) \<and>
                     \<bar>int nr - int r\<bar> \<le> 1 \<and> \<bar>int nc - int c\<bar> \<le> 1 \<and> isMine (g ! nr ! nc)}"

definition countsExact :: "grid \<Rightarrow> bool" where
  "countsExact g \<longleftrightarrow>
     (\<forall>r < length g. \<forall>c < length (g ! r).
        \<not> isMine (g ! r ! c) \<longrightarrow> neighborMines (g ! r ! c) = mineNeighbours g r c)"

definition hit :: "GameConfig \<Rightarrow> grid \<Rightarrow> nat \<Rightarrow> nat \<Rightarrow> int \<times> int \<Rightarrow> bool" where
  "hit config g r c = (\<lambda>(dr, dc).
     0 \<le> int r + dr \<and> int r + dr < int (rows config) \<and>
     0 \<le> int c + dc \<and> int c + dc < int (cols config) \<and>
     isMine (g ! nat (int r + dr) ! nat (int c + dc)))"

lemma abs_le_one_iff: "\<bar>x::int\<bar> \<le> 1 \<longleftrightarrow> x = -1 \<or> x = 0 \<or> x = 1"
  by arith

lemma set_offsets: "(dr, dc) \<in> set offsets \<longleftrightarrow> \<bar>dr\<bar> \<le> 1 \<and> \<bar>dc\<bar> \<le> 1"
  unfolding abs_le_one_iff offsets_def by simp blast

lemma distinct_offsets: "distinct offsets"
  unfolding offsets_def by (rule distinct_product) simp_all

lemma fold_countStep:
  assumes "hasDims config g"
  shows "fold (countStep config g r c) ds (Some k)
           = Some (k + length (filter (hit config g r c) ds))"
proof (induction ds arbitrary: k)
  case Nil
  show ?case by simp
next
  case (Cons d ds)
  obtain dr dc where d: "d = (dr, dc)" by (cases d)
  show ?case
  proof (cases "0 \<le> int r + dr \<and> int r + dr < int (rows config) \<and>
                0 \<le> int c + dc \<and> int c + dc < int (cols config)")
    case True
    then have "nat (int r + dr) < rows config" "nat (int c + dc) < cols config" by auto
    then have "cellAt g (int r + dr) (int c + dc)
                 = Some (g ! nat (int r + dr) ! nat (int c + dc))"
      using True assms by (simp add: cellAt_Some_iff hasDims_length hasDims_nth)
    then have "countStep config g r c d (Some k)
                 = Some (if hit config g r c d then k + 1 else k)"
      using True by (simp add: countStep_def d hit_def Let_def)
    then show ?thesis using Cons.IH by simp
  next
    case False
    then have "countStep config g r c d (Some k) = Some k" "\<not> hit config g r c d"
      by (auto simp: countStep_def d hit_def Let_def)
    then show ?thesis using Cons.IH by simp
  qed
qed

lemma hit_image:
  assumes "hasDims config g" "r < rows config" "c < cols config" "\<not> isMine (g ! r ! c)"
  shows "(\<lambda>(dr, dc). (nat (int r + dr), nat (int c + dc))) ` {d \<in> set offsets. hit config g r c d}
           = {(nr, nc). nr < length g \<and> nc < length (g ! nr) \<and> (nr, nc) \<noteq> (r, c) \<and>
                        \<bar>int nr - int r\<bar> \<le> 1 \<and> \<bar>int nc - int c\<bar> \<le> 1 \<and> isMine (g ! nr ! nc)}"
    (is "?f ` ?A = ?B")
proof (intro set_eqI iffI)
  fix p assume "p \<in> ?f ` ?A"
  then obtain dr dc where p: "p = (nat (int r + dr), nat (int c + dc))"
    and o: "(dr, dc) \<in> set offsets" and h: "hit config g r c (dr, dc)" by auto
  from h have b: "0 \<le> int r + dr" "int r + dr < int (rows config)"
      "0 \<le> int c + dc" "int c + dc < int (cols config)"
    and m: "isMine (g ! nat (int r + dr) ! nat (int c + dc))" by (auto simp: hit_def)
  from b have n: "nat (int r + dr) < rows config" "nat (int c + dc) < cols config" by auto
  have ne: "(nat (int r + dr), nat (int c + dc)) \<noteq> (r, c)"
    using m assms(4) by auto
  have "\<bar>int (nat (int r + dr)) - int r\<bar> \<le> 1" "\<bar>int (nat (int c + dc)) - int c\<bar> \<le> 1"
    using o b by (auto simp: set_offsets)
  then show "p \<in> ?B"
    using p n ne m assms(1) by (simp add: hasDims_length hasDims_nth)
next
  fix p assume pB: "p \<in> ?B"
  obtain nr nc where p: "p = (nr, nc)" by (cases p)
  from pB p have n: "nr < length g" "nc < length (g ! nr)" and
    a: "\<bar>int nr - int r\<bar> \<le> 1" "\<bar>int nc - int c\<bar> \<le> 1" and m: "isMine (g ! nr ! nc)" by auto
  let ?d = "(int nr - int r, int nc - int c)"
  have "?d \<in> set offsets" using a by (simp add: set_offsets)
  moreover have "hit config g r c ?d"
    using n m assms(1) by (simp add: hit_def hasDims_length hasDims_nth)
  moreover have "?f ?d = p" by (simp add: p)
  ultimately show "p \<in> ?f ` ?A" by (metis (mono_tags, lifting) image_eqI mem_Collect_eq)
qed

lemma hit_inj:
  "inj_on (\<lambda>(dr, dc). (nat (int r + dr), nat (int c + dc))) {d \<in> set offsets. hit config g r c d}"
  by (rule inj_onI) (auto simp: hit_def)

lemma countMines_exact:
  assumes "hasDims config g" "r < rows config" "c < cols config" "\<not> isMine (g ! r ! c)"
  shows "countMines config g r c = Some (mineNeighbours g r c)"
proof -
  have "length (filter (hit config g r c) offsets) = card {d \<in> set offsets. hit config g r c d}"
    using distinct_offsets by (simp add: distinct_card[symmetric] distinct_filter)
  also have "\<dots> = card ((\<lambda>(dr, dc). (nat (int r + dr), nat (int c + dc))) `
                          {d \<in> set offsets. hit config g r c d})"
    by (rule card_image[OF hit_inj, symmetric])
  also have "\<dots> = mineNeighbours g r c"
    unfolding hit_image[OF assms] mineNeighbours_def ..
  finally show ?thesis
    by (simp add: countMines_def fold_countStep[OF assms(1)])
qed

lemma mineNeighbours_cong:
  assumes "cellsRel (\<lambda>i j x y. isMine y = isMine x) g g'"
  shows "mineNeighbours g' r c = mineNeighbours g r c"
proof -
  have "{(nr, nc). nr < length g' \<and> nc < length (g' ! nr) \<and> (nr, nc) \<noteq> (r, c) \<and>
                   \<bar>int nr - int r\<bar> \<le> 1 \<and> \<bar>int nc - int c\<bar> \<le> 1 \<and> isMine (g' ! nr ! nc)}
      = {(nr, nc). nr < length g \<and> nc < length (g ! nr) \<and> (nr, nc) \<noteq> (r, c) \<and>
                   \<bar>int nr - int r\<bar> \<le> 1 \<and> \<bar>int nc - int c\<bar> \<le> 1 \<and> isMine (g ! nr ! nc)}"
    using cellsRel_length[OF assms] cellsRel_length_nth[OF assms] cellsRel_nth[OF assms]
    by auto
  then show ?thesis by (simp add: mineNeighbours_def)
qed

text \<open>
  Progress of the two counting loops: the cells before position \<open>(r, n)\<close> in row-major
  order carry their count, the others are as placed.
\<close>

definition counted :: "grid \<Rightarrow> nat \<Rightarrow> nat \<Rightarrow> nat \<Rightarrow> nat \<Rightarrow> Cell \<Rightarrow> Cell \<Rightarrow> bool" where
  "counted g0 r n i j x y \<longleftrightarrow>
     y = (if (i < r \<or> (i = r \<and> j < n)) \<and> \<not> isMine x
          then x\<lparr>neighborMines := mineNeighbours g0 i j\<rparr> else x)"

lemma counted_isMine: "counted g0 r n i j x y \<Longrightarrow> isMine y = isMine x"
  by (simp add: counted_def split: if_splits)

lemma setCount_step:
  assumes hd: "hasDims config g0" and rel: "cellsRel (counted g0 r n) g0 g"
    and r: "r < rows config" and n: "n < cols config"
  shows "\<exists>g'. setCount config g r n = Some g' \<and> cellsRel (counted g0 r (Suc n)) g0 g'"
proof -
  have hg: "hasDims config g" by (rule cellsRel_hasDims[OF rel hd])
  have b0: "r < length g0" "n < length (g0 ! r)"
    using hd r n by (simp_all add: hasDims_length hasDims_nth)
  have b: "r < length g" "n < length (g ! r)"
    using hg r n by (simp_all add: hasDims_length hasDims_nth)
  have same: "g ! r ! n = g0 ! r ! n"
    using cellsRel_nth[OF rel b0] by (simp add: counted_def)
  have at: "cellAt g (int r) (int n) = Some (g ! r ! n)" by (rule cellAt_nat[OF b])
  have ml: "map length g = map length g0" using rel by (simp add: cellsRel_def)
  show ?thesis
  proof (cases "isMine (g ! r ! n)")
    case True
    then have "setCount config g r n = Some g" by (simp add: setCount_def at)
    moreover have "cellsRel (counted g0 r (Suc n)) g0 g"
      unfolding cellsRel_def
    proof (intro conjI allI impI)
      show "map length g = map length g0" by (rule ml)
    next
      fix i j assume ij: "i < length g0" "j < length (g0 ! i)"
      from cellsRel_nth[OF rel ij] True same
      show "counted g0 r (Suc n) i j (g0 ! i ! j) (g ! i ! j)"
        by (cases "i = r \<and> j = n") (auto simp: counted_def less_Suc_eq)
    qed
    ultimately show ?thesis by blast
  next
    case False
    have "cellsRel (\<lambda>i j x y. isMine y = isMine x) g0 g"
      by (rule cellsRel_mono[OF rel]) (rule counted_isMine)
    then have mn: "mineNeighbours g r n = mineNeighbours g0 r n" by (rule mineNeighbours_cong)
    let ?g' = "setCell g r n ((g ! r ! n)\<lparr>neighborMines := mineNeighbours g0 r n\<rparr>)"
    have "setCount config g r n = Some ?g'"
      using False countMines_exact[OF hg r n False] mn by (simp add: setCount_def at)
    moreover have "cellsRel (counted g0 r (Suc n)) g0 ?g'"
      unfolding cellsRel_def
    proof (intro conjI allI impI)
      show "map length ?g' = map length g0" by (simp add: map_length_setCell ml)
    next
      fix i j assume ij: "i < length g0" "j < length (g0 ! i)"
      from cellsRel_nth[OF rel ij] False same
      show "counted g0 r (Suc n) i j (g0 ! i ! j) (?g' ! i ! j)"
        by (cases "i = r \<and> j = n") (auto simp: counted_def less_Suc_eq setCell_nth[OF b])
    qed
    ultimately show ?thesis by blast
  qed
qed

lemma countRow_prefix:
  assumes hd: "hasDims config g0" and rel: "cellsRel (counted g0 r 0) g0 g"
    and r: "r < rows config"
  shows "n \<le> cols config \<Longrightarrow>
     \<exists>g'. fold (\<lambda>c acc. case acc of None \<Rightarrow> None | Some g \<Rightarrow> setCount config g r c) [0..<n] (Some g)
             = Some g' \<and> cellsRel (counted g0 r n) g0 g'"
proof (induction n)
  case 0
  show ?case using rel by simp
next
  case (Suc n)
  then obtain g1 where
    f: "fold (\<lambda>c acc. case acc of None \<Rightarrow> None | Some g \<Rightarrow> setCount config g r c) [0..<n] (Some g)
          = Some g1" and r1: "cellsRel (counted g0 r n) g0 g1" by auto
  from Suc.prems have "n < cols config" by simp
  from setCount_step[OF hd r1 r this] f show ?case by simp
qed

lemma counted_next_row:
  assumes "hasDims config g0" "r < rows config" "cellsRel (counted g0 r (cols config)) g0 g"
  shows "cellsRel (counted g0 (Suc r) 0) g0 g"
  unfolding cellsRel_def
proof (intro conjI allI impI)
  show "map length g = map length g0" using assms(3) by (simp add: cellsRel_def)
next
  fix i j assume ij: "i < length g0" "j < length (g0 ! i)"
  then have "j < cols config" using assms(1) by (simp add: hasDims_length hasDims_nth)
  with cellsRel_nth[OF assms(3) ij]
  show "counted g0 (Suc r) 0 i j (g0 ! i ! j) (g ! i ! j)"
    by (auto simp: counted_def less_Suc_eq)
qed

lemma computeCounts_prefix:
  assumes hd: "hasDims config g0"
  shows "m \<le> rows config \<Longrightarrow>
     \<exists>g'. fold (countRow config) [0..<m] (Some g0) = Some g' \<and> cellsRel (counted g0 m 0) g0 g'"
proof (induction m)
  case 0
  show ?case by (simp add: cellsRel_def counted_def)
next
  case (Suc m)
  then obtain g1 where f: "fold (countRow config) [0..<m] (Some g0) = Some g1"
    and r1: "cellsRel (counted g0 m 0) g0 g1" by auto
  from Suc.prems have m: "m < rows config" by simp
  from countRow_prefix[OF hd r1 m le_refl] obtain g2 where
    c: "countRow config m (Some g1) = Some g2" and r2: "cellsRel (counted g0 m (cols config)) g0 g2"
    by (auto simp: countRow_def)
  from counted_next_row[OF hd m r2] f c show ?case by simp
qed

text \<open>What the counting loops do to a cell.\<close>

definition countedAll :: "grid \<Rightarrow> nat \<Rightarrow> nat \<Rightarrow> Cell \<Rightarrow> Cell \<Rightarrow> bool" where
  "countedAll g0 i j x y \<longleftrightarrow>
     y = (if isMine x then x else x\<lparr>neighborMines := mineNeighbours g0 i j\<rparr>)"

lemma computeCounts_result:
  assumes hd: "hasDims config g0"
  shows "\<exists>g'. computeCounts config g0 = Some g' \<and> cellsRel (countedAll g0) g0 g'"
proof -
  from computeCounts_prefix[OF hd le_refl] obtain g' where
    f: "computeCounts config g0 = Some g'" and r: "cellsRel (counted g0 (rows config) 0) g0 g'"
    by (auto simp: computeCounts_def)
  have "cellsRel (countedAll g0) g0 g'"
    unfolding cellsRel_def
  proof (intro conjI allI impI)
    show "map length g' = map length g0" using r by (simp add: cellsRel_def)
  next
    fix i j assume ij: "i < length g0" "j < length (g0 ! i)"
    then have "i < rows config" using hd by (simp add: hasDims_length)
    with cellsRel_nth[OF r ij] show "countedAll g0 i j (g0 ! i ! j) (g' ! i ! j)"
      by (auto simp: counted_def countedAll_def)
  qed
  with f show ?thesis by blast
qed

lemma countedAll_countsExact:
  assumes "cellsRel (countedAll g0) g0 g'"
  shows "countsExact g'"
proof -
  have "cellsRel (\<lambda>i j x y. isMine y = isMine x) g0 g'"
    by (rule cellsRel_mono[OF assms]) (simp add: countedAll_def split: if_splits)
  then have mn: "\<And>r c. mineNeighbours g' r c = mineNeighbours g0 r c"
    by (rule mineNeighbours_cong)
  show ?thesis
    unfolding countsExact_def
  proof (intro allI impI)
    fix r c assume rc: "r < length g'" "c < length (g' ! r)" and nm: "\<not> isMine (g' ! r ! c)"
    have b: "r < length g0" "c < length (g0 ! r)"
      using rc cellsRel_length[OF assms] cellsRel_length_nth[OF assms, of r] by simp_all
    from cellsRel_nth[OF assms b] nm
    show "neighborMines (g' ! r ! c) = mineNeighbours g' r c"
      by (simp add: countedAll_def mn split: if_splits)
  qed
qed

section \<open>Properties of \<open>placeMines\<close>\<close>

lemma cellsRel_map_eq:
  assumes "cellsRel (\<lambda>i j x y. f y = f x) g g'"
  shows "map (map f) g' = map (map f) g"
proof (rule nth_equalityI)
  show "length (map (map f) g') = length (map (map f) g)"
    using cellsRel_length[OF assms] by simp
next
  fix i assume "i < length (map (map f) g')"
  then have i: "i < length g" using cellsRel_length[OF assms] by simp
  have "map f (g' ! i) = map f (g ! i)"
  proof (rule nth_equalityI)
    show "length (map f (g' ! i)) = length (map f (g ! i))"
      using cellsRel_length_nth[OF assms i] by simp
  next
    fix j assume "j < length (map f (g' ! i))"
    then have j: "j < length (g ! i)" using cellsRel_length_nth[OF assms i] by simp
    with cellsRel_nth[OF assms i j] cellsRel_length_nth[OF assms i]
    show "map f (g' ! i) ! j = map f (g ! i) ! j" by simp
  qed
  then show "map (map f) g' ! i = map (map f) g ! i"
    using i cellsRel_length[OF assms] by simp
qed

lemma mineTotal_map: "mineTotal g = length (filter id (concat (map (map isMine) g)))"
  by (simp add: mineTotal_def map_concat[symmetric] filter_map comp_def)

lemma mineTotal_cong:
  "cellsRel (\<lambda>i j x y. isMine y = isMine x) g g' \<Longrightarrow> mineTotal g' = mineTotal g"
  by (simp add: mineTotal_map cellsRel_map_eq)

lemma mineTotal_0_nth:
  assumes "mineTotal g = 0" "r < length g" "c < length (g ! r)"
  shows "\<not> isMine (g ! r ! c)"
proof -
  have "g ! r ! c \<in> set (concat g)" using assms(2,3) by (auto intro!: bexI[of _ "g ! r"])
  moreover have "filter isMine (concat g) = []" using assms(1) by (simp add: mineTotal_def)
  ultimately show ?thesis by (auto simp: filter_empty_conv)
qed

text \<open>What \<open>placeMines\<close> as a whole may do to a cell.\<close>

definition placed :: "nat \<Rightarrow> nat \<Rightarrow> nat \<Rightarrow> nat \<Rightarrow> Cell \<Rightarrow> Cell \<Rightarrow> bool" where
  "placed firstRow firstCol i j x y \<longleftrightarrow>
     y = x\<lparr>isMine := isMine y, neighborMines := neighborMines y\<rparr> \<and> (isMine x \<longrightarrow> isMine y) \<and>
     (isMine y \<and> \<not> isMine x \<longrightarrow> \<not> inZone firstRow firstCol i j)"

lemma placeMines_result:
  assumes hd: "hasDims (DIFFICULTIES d) g" and pm: "placeMines d g fr fc ds = Some g'"
  shows "hasDims (DIFFICULTIES d) g'" "cellsRel (placed fr fc) g g'"
    "mineTotal g' = mineTotal g + mines (DIFFICULTIES d)" "countsExact g'"
proof -
  from pm obtain g1 where pl: "placeLoop (DIFFICULTIES d) fr fc ds 0 g = Some g1"
    and cc: "computeCounts (DIFFICULTIES d) g1 = Some g'"
    by (auto simp: placeMines_def Let_def split: option.splits)
  have r1: "cellsRel (mined fr fc) g g1" by (rule placeLoop_rel[OF pl])
  have h1: "hasDims (DIFFICULTIES d) g1" by (rule cellsRel_hasDims[OF r1 hd])
  from computeCounts_result[OF h1] cc have r2: "cellsRel (countedAll g1) g1 g'" by simp
  show "hasDims (DIFFICULTIES d) g'" by (rule cellsRel_hasDims[OF r2 h1])
  show "cellsRel (placed fr fc) g g'"
  proof (rule cellsRel_trans[OF r1 r2])
    fix i j x y z assume "mined fr fc i j x y" "countedAll g1 i j y z"
    then show "placed fr fc i j x z"
      unfolding mined_def countedAll_def placed_def by (cases x, cases y) (auto split: if_splits)
  qed
  have "cellsRel (\<lambda>i j x y. isMine y = isMine x) g1 g'"
    by (rule cellsRel_mono[OF r2]) (simp add: countedAll_def split: if_splits)
  then have "mineTotal g' = mineTotal g1" by (rule mineTotal_cong)
  with placeLoop_total[OF pl] show "mineTotal g' = mineTotal g + mines (DIFFICULTIES d)" by simp
  show "countsExact g'" by (rule countedAll_countsExact[OF r2])
qed

lemma placeMines_returns:
  assumes hd: "hasDims (DIFFICULTIES d) g" and dr: "drawsInRange (DIFFICULTIES d) ds"
    and en: "mines (DIFFICULTIES d) \<le> card (fresh fr fc g ds)"
  shows "\<exists>g'. placeMines d g fr fc ds = Some g'"
proof -
  from placeLoop_progress[OF hd dr, of 0 fr fc] en obtain g1 where
    pl: "placeLoop (DIFFICULTIES d) fr fc ds 0 g = Some g1" by auto
  have "hasDims (DIFFICULTIES d) g1" by (rule cellsRel_hasDims[OF placeLoop_rel[OF pl] hd])
  from computeCounts_result[OF this] pl show ?thesis by (auto simp: placeMines_def)
qed

section \<open>An example game\<close>

text \<open>
  The component before its first effect has run, the Beginner game that \<open>startGame\<close> makes of
  it, and a sequence of draws that walls off the upper right corner of the board.
\<close>

definition mounted :: Game where
  "mounted = \<lparr>difficulty = Beginner, grid = [], status = Idle, mineCount = 0, timer = 0,
              timerRef = False, ticking = False\<rparr>"

definition newGame :: Game where
  "newGame = startGame mounted"

definition cornerDraws :: "(nat \<times> nat) list" where
  "cornerDraws = [(0, 4), (1, 4), (8, 0), (2, 4), (3, 4), (0, 4), (3, 5), (3, 6), (3, 7), (3, 8),
                  (0, 8), (1, 8)]"

section \<open>Mine placement: the claims\<close>


text \<open>
  C2. On the board \<open>placeMines\<close> returns, \<open>neighborMines\<close> of every cell that is not a mine is
  the number of mine cells among its neighbours on the board.
\<close>

theorem placeMines_neighbour_counts:
  assumes "hasDims (DIFFICULTIES d) g" and "placeMines d g firstRow firstCol draws = Some g'"
  shows "\<forall>r < rows (DIFFICULTIES d). \<forall>c < cols (DIFFICULTIES d).
           \<not> isMine (g' ! r ! c) \<longrightarrow>
           neighborMines (g' ! r ! c) =
             card {(nr, nc). nr < rows (DIFFICULTIES d) \<and> nc < cols (DIFFICULTIES d) \<and>
                             (nr, nc) \<noteq> (r, c) \<and> \<bar>int nr - int r\<bar> \<le> 1 \<and>
                             \<bar>int nc - int c\<bar> \<le> 1 \<and> isMine (g' ! nr ! nc)}"
proof (intro allI impI)
  fix r c assume rc: "r < rows (DIFFICULTIES d)" "c < cols (DIFFICULTIES d)"
    and nm: "\<not> isMine (g' ! r ! c)"
  note hd' = placeMines_result(1)[OF assms]
  have b: "r < length g'" "c < length (g' ! r)"
    using hd' rc by (simp_all add: hasDims_length hasDims_nth)
  have "{(nr, nc). nr < length g' \<and> nc < length (g' ! nr) \<and> (nr, nc) \<noteq> (r, c) \<and>
                   \<bar>int nr - int r\<bar> \<le> 1 \<and> \<bar>int nc - int c\<bar> \<le> 1 \<and> isMine (g' ! nr ! nc)}
      = {(nr, nc). nr < rows (DIFFICULTIES d) \<and> nc < cols (DIFFICULTIES d) \<and>
                   (nr, nc) \<noteq> (r, c) \<and> \<bar>int nr - int r\<bar> \<le> 1 \<and>
                   \<bar>int nc - int c\<bar> \<le> 1 \<and> isMine (g' ! nr ! nc)}"
    using hd' by (auto simp: hasDims_length hasDims_nth)
  then have "mineNeighbours g' r c = card {(nr, nc). nr < rows (DIFFICULTIES d) \<and>
      nc < cols (DIFFICULTIES d) \<and> (nr, nc) \<noteq> (r, c) \<and> \<bar>int nr - int r\<bar> \<le> 1 \<and>
      \<bar>int nc - int c\<bar> \<le> 1 \<and> isMine (g' ! nr ! nc)}"
    by (simp add: mineNeighbours_def)
  with placeMines_result(4)[OF assms] b nm
  show "neighborMines (g' ! r ! c) = card {(nr, nc). nr < rows (DIFFICULTIES d) \<and>
      nc < cols (DIFFICULTIES d) \<and> (nr, nc) \<noteq> (r, c) \<and> \<bar>int nr - int r\<bar> \<le> 1 \<and>
      \<bar>int nc - int c\<bar> \<le> 1 \<and> isMine (g' ! nr ! nc)}"
    by (simp add: countsExact_def)
qed

section \<open>The flood fill as a relation\<close>

text \<open>
  A cell is revealable when \<^verbatim>\<open>reveal\<close> does not return at its first line: it is on the
  board, not revealed and not flagged.
\<close>

definition revealable :: "grid \<Rightarrow> int \<Rightarrow> int \<Rightarrow> bool" where
  "revealable g rw cl =
     (case cellAt g rw cl of None \<Rightarrow> False | Some x \<Rightarrow> \<not> isRevealed x \<and> \<not> isFlagged x)"

lemma revealable_iff:
  "revealable g rw cl \<longleftrightarrow> (\<exists>x. cellAt g rw cl = Some x \<and> \<not> isRevealed x \<and> \<not> isFlagged x)"
  by (simp add: revealable_def split: option.split)

definition lose :: "Game \<Rightarrow> Game" where
  "lose s = stopTimer (s\<lparr>status := Lost\<rparr>)"

text \<open>What a reveal may do to a cell: set \<open>isRevealed\<close>.\<close>

definition shown :: "nat \<Rightarrow> nat \<Rightarrow> Cell \<Rightarrow> Cell \<Rightarrow> bool" where
  "shown i j x y \<longleftrightarrow> y = x\<lparr>isRevealed := isRevealed y\<rparr> \<and> (isRevealed x \<longrightarrow> isRevealed y)"

lemma shown_refl: "shown i j x x"
  by (simp add: shown_def)

lemma shown_trans: "shown i j x y \<Longrightarrow> shown i j y z \<Longrightarrow> shown i j x z"
  unfolding shown_def by (cases x, cases y, cases z) auto

inductive fill :: "grid \<Rightarrow> Game \<Rightarrow> int \<Rightarrow> int \<Rightarrow> grid \<Rightarrow> Game \<Rightarrow> bool"
  and fillAround :: "grid \<Rightarrow> Game \<Rightarrow> int \<Rightarrow> int \<Rightarrow> (int \<times> int) list \<Rightarrow> grid \<Rightarrow> Game \<Rightarrow> bool"
  where
  skip: "\<not> revealable g rw cl \<Longrightarrow> fill g s rw cl g s"
| mine: "cellAt g rw cl = Some x \<Longrightarrow> \<not> isRevealed x \<Longrightarrow> \<not> isFlagged x \<Longrightarrow> isMine x \<Longrightarrow>
         fill g s rw cl (revealMines (setCell g (nat rw) (nat cl) (x\<lparr>isRevealed := True\<rparr>))) (lose s)"
| number: "cellAt g rw cl = Some x \<Longrightarrow> \<not> isRevealed x \<Longrightarrow> \<not> isFlagged x \<Longrightarrow> \<not> isMine x \<Longrightarrow>
         neighborMines x \<noteq> 0 \<Longrightarrow>
         fill g s rw cl (setCell g (nat rw) (nat cl) (x\<lparr>isRevealed := True\<rparr>)) s"
| zero: "cellAt g rw cl = Some x \<Longrightarrow> \<not> isRevealed x \<Longrightarrow> \<not> isFlagged x \<Longrightarrow> \<not> isMine x \<Longrightarrow>
         neighborMines x = 0 \<Longrightarrow>
         fillAround (setCell g (nat rw) (nat cl) (x\<lparr>isRevealed := True\<rparr>)) s rw cl offsets g' s' \<Longrightarrow>
         fill g s rw cl g' s'"
| nil: "fillAround g s rw cl [] g s"
| cons: "fill g s (rw + dr) (cl + dc) g1 s1 \<Longrightarrow> fillAround g1 s1 rw cl ds g' s' \<Longrightarrow>
         fillAround g s rw cl ((dr, dc) # ds) g' s'"

lemma shown_mark:
  assumes "cellAt g rw cl = Some x"
  shows "cellsRel shown g (setCell g (nat rw) (nat cl) (x\<lparr>isRevealed := True\<rparr>))"
proof -
  from assms have b: "nat rw < length g" "nat cl < length (g ! nat rw)"
    and x: "x = g ! nat rw ! nat cl" by (auto simp: cellAt_Some_iff)
  show ?thesis
    by (rule cellsRel_setCell[OF b]) (simp_all add: shown_def x)
qed

lemma shown_revealMines: "cellsRel shown g (revealMines g)"
  unfolding revealMines_def by (rule cellsRel_map) (simp add: shown_def)

lemma fill_shown:
  "fill g s rw cl g' s' \<Longrightarrow> cellsRel shown g g'"
  "fillAround g s rw cl ds g' s' \<Longrightarrow> cellsRel shown g g'"
proof (induction rule: fill_fillAround.inducts)
  case (skip g rw cl s)
  show ?case by (rule cellsRel_refl) (rule shown_refl)
next
  case (mine g rw cl x s)
  show ?case
    by (rule cellsRel_trans[OF shown_mark[OF mine(1)] shown_revealMines]) (rule shown_trans)
next
  case (number g rw cl x s)
  show ?case by (rule shown_mark[OF number(1)])
next
  case (zero g rw cl x s g' s')
  show ?case by (rule cellsRel_trans[OF shown_mark[OF zero(1)] zero.IH]) (rule shown_trans)
next
  case (nil g s rw cl)
  show ?case by (rule cellsRel_refl) (rule shown_refl)
next
  case (cons g s rw dr cl dc g1 s1 ds g' s')
  show ?case by (rule cellsRel_trans[OF cons.IH]) (rule shown_trans)
qed

text \<open>
  On a rectangular board the bounds test of \<^verbatim>\<open>reveal\<close>, which reads the width off row 0,
  passes exactly for the cells of the board.
\<close>

lemma guard_iff:
  assumes "hasDims config g"
  shows "(rw < 0 \<or> rw \<ge> int (length g) \<or> cl < 0 \<or> cl \<ge> int (length (g ! 0)))
           \<longleftrightarrow> cellAt g rw cl = None"
proof (cases "0 \<le> rw \<and> rw < int (length g)")
  case True
  then have "nat rw < rows config" "0 < rows config"
    using assms by (auto simp: hasDims_length)
  then have "length (g ! nat rw) = cols config" "length (g ! 0) = cols config"
    using assms by (simp_all add: hasDims_nth)
  with True show ?thesis by (auto simp: cellAt_def)
next
  case False
  then show ?thesis by (auto simp: cellAt_def)
qed

lemma reveal_fill:
  "hasDims config g \<Longrightarrow> \<exists>g' s'. reveal g s rw cl = Some (g', s') \<and> fill g s rw cl g' s'"
  "hasDims config g \<Longrightarrow>
     \<exists>g' s'. revealAround g s rw cl ds = Some (g', s') \<and> fillAround g s rw cl ds g' s'"
proof (induction g s rw cl and g s rw cl ds rule: reveal_revealAround.induct)
  case (1 g s rw cl)
  note gd = guard_iff[OF 1(2), of rw cl]
  show ?case
  proof (cases "cellAt g rw cl")
    case None
    then have "\<not> revealable g rw cl" by (simp add: revealable_iff)
    moreover have "reveal g s rw cl = Some (g, s)"
      using None gd by (subst reveal.simps) simp
    ultimately show ?thesis by (auto intro: fill_fillAround.skip)
  next
    case (Some x)
    with gd have ng: "\<not> (rw < 0 \<or> rw \<ge> int (length g) \<or> cl < 0 \<or> cl \<ge> int (length (g ! 0)))"
      by simp
    let ?g1 = "setCell g (nat rw) (nat cl) (x\<lparr>isRevealed := True\<rparr>)"
    show ?thesis
    proof (cases "isRevealed x \<or> isFlagged x")
      case True
      then have "\<not> revealable g rw cl" using Some by (auto simp: revealable_iff)
      moreover have "reveal g s rw cl = Some (g, s)"
        using Some ng True by (subst reveal.simps) simp
      ultimately show ?thesis by (auto intro: fill_fillAround.skip)
    next
      case ok: False
      show ?thesis
      proof (cases "isMine x")
        case True
        have "reveal g s rw cl = Some (revealMines ?g1, lose s)"
          using Some ng ok True by (subst reveal.simps) (simp add: lose_def)
        moreover have "fill g s rw cl (revealMines ?g1) (lose s)"
          using Some ok True by (intro fill_fillAround.mine) auto
        ultimately show ?thesis by blast
      next
        case nm: False
        show ?thesis
        proof (cases "neighborMines x = 0")
          case True
          have h1: "hasDims config ?g1"
            using 1(2) by (simp add: hasDims_iff map_length_setCell)
          from 1(1)[OF ng Some ok refl nm True h1] obtain g' s' where
            ra: "revealAround ?g1 s rw cl offsets = Some (g', s')"
            and fa: "fillAround ?g1 s rw cl offsets g' s'" by blast
          have "reveal g s rw cl = Some (g', s')"
            using Some ng ok nm True ra by (subst reveal.simps) simp
          moreover have "fill g s rw cl g' s'"
            using Some ok nm True fa by (intro fill_fillAround.zero[of g rw cl x]) auto
          ultimately show ?thesis by blast
        next
          case False
          have "reveal g s rw cl = Some (?g1, s)"
            using Some ng ok nm False by (subst reveal.simps) simp
          moreover have "fill g s rw cl ?g1 s"
            using Some ok nm False by (intro fill_fillAround.number) auto
          ultimately show ?thesis by blast
        qed
      qed
    qed
  qed
next
  case (2 g s rw cl)
  show ?case by (auto intro: fill_fillAround.nil)
next
  case (3 g s rw cl dr dc ds)
  from 3(1)[OF 3(3)] obtain g1 s1 where r1: "reveal g s (rw + dr) (cl + dc) = Some (g1, s1)"
    and f1: "fill g s (rw + dr) (cl + dc) g1 s1" by blast
  have h1: "hasDims config g1" by (rule cellsRel_hasDims[OF fill_shown(1)[OF f1] 3(3)])
  from 3(2)[OF r1 refl h1] obtain g' s' where r2: "revealAround g1 s1 rw cl ds = Some (g', s')"
    and f2: "fillAround g1 s1 rw cl ds g' s'" by blast
  have "revealAround g s rw cl ((dr, dc) # ds) = Some (g', s')" using r1 r2 by simp
  moreover have "fillAround g s rw cl ((dr, dc) # ds) g' s'"
    by (rule fill_fillAround.cons[OF f1 f2])
  ultimately show ?case by blast
qed

subsection \<open>What stays fixed while cells are revealed\<close>

definition revealedSet :: "grid \<Rightarrow> (int \<times> int) set" where
  "revealedSet g = {(rw, cl). \<exists>x. cellAt g rw cl = Some x \<and> isRevealed x}"

text \<open>A cell spreads the fill when it is no mine and counts no mine around it.\<close>

definition spreads :: "grid \<Rightarrow> int \<Rightarrow> int \<Rightarrow> bool" where
  "spreads g rw cl =
     (case cellAt g rw cl of None \<Rightarrow> False | Some x \<Rightarrow> \<not> isMine x \<and> neighborMines x = 0)"

lemma spreads_iff:
  "spreads g rw cl \<longleftrightarrow> (\<exists>x. cellAt g rw cl = Some x \<and> \<not> isMine x \<and> neighborMines x = 0)"
  by (simp add: spreads_def split: option.split)

lemma shown_fields:
  "shown i j x y \<Longrightarrow> isMine y = isMine x \<and> isFlagged y = isFlagged x \<and>
     neighborMines y = neighborMines x \<and> (isRevealed x \<longrightarrow> isRevealed y)"
  unfolding shown_def by (cases x, cases y) auto

lemma shown_cellAt_fwd:
  assumes "cellsRel shown g g'" "cellAt g rw cl = Some x"
  obtains y where "cellAt g' rw cl = Some y" "shown (nat rw) (nat cl) x y"
  using cellsRel_cellAt[OF assms] by blast

lemma shown_cellAt_bwd:
  assumes "cellsRel shown g g'" "cellAt g' rw cl = Some y"
  obtains x where "cellAt g rw cl = Some x" "shown (nat rw) (nat cl) x y"
proof (cases "cellAt g rw cl")
  case None
  with cellsRel_cellAt_None[OF assms(1) None] assms(2) show ?thesis by simp
next
  case (Some x)
  with cellsRel_cellAt[OF assms(1) Some] assms(2) that show ?thesis by auto
qed

lemma shown_spreads:
  assumes "cellsRel shown g g'"
  shows "spreads g' rw cl = spreads g rw cl"
proof
  assume "spreads g' rw cl"
  then obtain y where y: "cellAt g' rw cl = Some y" "\<not> isMine y" "neighborMines y = 0"
    by (auto simp: spreads_iff)
  from shown_cellAt_bwd[OF assms y(1)] obtain x where
    "cellAt g rw cl = Some x" "shown (nat rw) (nat cl) x y" .
  with y shown_fields show "spreads g rw cl" unfolding spreads_iff by metis
next
  assume "spreads g rw cl"
  then obtain x where x: "cellAt g rw cl = Some x" "\<not> isMine x" "neighborMines x = 0"
    by (auto simp: spreads_iff)
  from shown_cellAt_fwd[OF assms x(1)] obtain y where
    "cellAt g' rw cl = Some y" "shown (nat rw) (nat cl) x y" .
  with x shown_fields show "spreads g' rw cl" unfolding spreads_iff by metis
qed

lemma shown_revealable:
  assumes "cellsRel shown g g'" "revealable g' rw cl"
  shows "revealable g rw cl"
proof -
  from assms(2) obtain y where y: "cellAt g' rw cl = Some y" "\<not> isRevealed y" "\<not> isFlagged y"
    by (auto simp: revealable_iff)
  from shown_cellAt_bwd[OF assms(1) y(1)] obtain x where
    "cellAt g rw cl = Some x" "shown (nat rw) (nat cl) x y" .
  with y shown_fields show ?thesis unfolding revealable_iff by metis
qed

lemma shown_revealedSet:
  assumes "cellsRel shown g g'"
  shows "revealedSet g \<subseteq> revealedSet g'"
proof
  fix p assume "p \<in> revealedSet g"
  then obtain rw cl x where p: "p = (rw, cl)" and x: "cellAt g rw cl = Some x" "isRevealed x"
    by (auto simp: revealedSet_def)
  from shown_cellAt_fwd[OF assms x(1)] obtain y where
    "cellAt g' rw cl = Some y" "shown (nat rw) (nat cl) x y" .
  with x shown_fields have "\<exists>y. cellAt g' rw cl = Some y \<and> isRevealed y" by metis
  then show "p \<in> revealedSet g'" by (simp add: revealedSet_def p)
qed

text \<open>A revealable cell that is no longer revealable has been revealed.\<close>

lemma shown_now_revealed:
  assumes "cellsRel shown g g'" "revealable g rw cl" "\<not> revealable g' rw cl"
  shows "(rw, cl) \<in> revealedSet g' - revealedSet g"
proof -
  from assms(2) obtain x where x: "cellAt g rw cl = Some x" "\<not> isRevealed x" "\<not> isFlagged x"
    by (auto simp: revealable_iff)
  from shown_cellAt_fwd[OF assms(1) x(1)] obtain y where
    y: "cellAt g' rw cl = Some y" "shown (nat rw) (nat cl) x y" .
  from shown_fields[OF y(2)] x(3) have "\<not> isFlagged y" by simp
  with assms(3) y(1) have "isRevealed y" by (auto simp: revealable_iff)
  with y(1) x(1,2) show ?thesis by (auto simp: revealedSet_def)
qed

lemma revealable_not_revealed: "revealable g rw cl \<Longrightarrow> (rw, cl) \<notin> revealedSet g"
  by (auto simp: revealable_iff revealedSet_def)

lemma cellAt_mark:
  assumes "cellAt g rw cl = Some x"
  shows "cellAt (setCell g (nat rw) (nat cl) y) r c
           = (if r = rw \<and> c = cl then Some y else cellAt g r c)"
proof -
  from assms have b: "0 \<le> rw" "0 \<le> cl" "nat rw < length g" "nat cl < length (g ! nat rw)"
    by (simp_all add: cellAt_Some_iff)
  let ?g' = "setCell g (nat rw) (nat cl) y"
  have l: "length ?g' = length g" by (simp add: setCell_def)
  have ln: "length (?g' ! i) = length (g ! i)" if "i < length g" for i
    using that by (cases "i = nat rw") (simp_all add: setCell_def)
  show ?thesis
  proof (cases "0 \<le> r \<and> nat r < length g \<and> 0 \<le> c \<and> nat c < length (g ! nat r)")
    case True
    then have in': "cellAt ?g' r c = Some (?g' ! nat r ! nat c)"
      and in0: "cellAt g r c = Some (g ! nat r ! nat c)"
      using l ln[of "nat r"] by (simp_all add: cellAt_Some_iff)
    have "(nat r = nat rw \<and> nat c = nat cl) \<longleftrightarrow> (r = rw \<and> c = cl)"
      using True b by auto
    then show ?thesis
      unfolding in' in0 setCell_nth[OF b(3,4)] by simp
  next
    case False
    then have "cellAt g r c = None" "cellAt ?g' r c = None"
      using l ln[of "nat r"] by (auto simp: cellAt_def)
    moreover have "\<not> (r = rw \<and> c = cl)" using False b by auto
    ultimately show ?thesis by simp
  qed
qed

lemma revealedSet_mark:
  assumes "cellAt g rw cl = Some x"
  shows "revealedSet (setCell g (nat rw) (nat cl) (x\<lparr>isRevealed := True\<rparr>))
           = insert (rw, cl) (revealedSet g)"
proof (rule set_eqI)
  fix p :: "int \<times> int"
  obtain r c where p: "p = (r, c)" by (cases p)
  show "p \<in> revealedSet (setCell g (nat rw) (nat cl) (x\<lparr>isRevealed := True\<rparr>))
          \<longleftrightarrow> p \<in> insert (rw, cl) (revealedSet g)"
    by (cases "r = rw \<and> c = cl") (auto simp: p revealedSet_def cellAt_mark[OF assms])
qed

lemma lose_idem: "lose (lose s) = lose s"
  by (simp add: lose_def stopTimer_def)

lemma fill_status:
  "fill g s rw cl g' s' \<Longrightarrow> s' = s \<or> s' = lose s"
  "fillAround g s rw cl ds g' s' \<Longrightarrow> s' = s \<or> s' = lose s"
  by (induction rule: fill_fillAround.inducts) (auto simp: lose_idem)

lemma fill_settles:
  assumes "fill g s rw cl g' s'"
  shows "\<not> revealable g' rw cl"
proof (cases "revealable g rw cl")
  case False
  with shown_revealable[OF fill_shown(1)[OF assms]] show ?thesis by blast
next
  case True
  let ?mark = "\<lambda>x. setCell g (nat rw) (nat cl) (x\<lparr>isRevealed := True\<rparr>)"
  have "\<exists>x. cellAt g rw cl = Some x \<and> cellsRel shown (?mark x) g'"
    using assms
  proof (cases rule: fill.cases)
    case skip
    with True show ?thesis by simp
  next
    case (mine x)
    have "cellsRel shown (?mark x) (revealMines (?mark x))" by (rule shown_revealMines)
    with mine show ?thesis by (intro exI[of _ x]) simp
  next
    case (number x)
    have "cellsRel shown (?mark x) (?mark x)" by (rule cellsRel_refl) (rule shown_refl)
    with number show ?thesis by (intro exI[of _ x]) simp
  next
    case (zero x)
    from fill_shown(2)[OF zero(6)] zero(1) show ?thesis by (intro exI[of _ x]) simp
  qed
  then obtain x where x: "cellAt g rw cl = Some x" and r: "cellsRel shown (?mark x) g'" by blast
  have "\<not> revealable (?mark x) rw cl"
    by (simp add: revealable_iff cellAt_mark[OF x])
  with shown_revealable[OF r] show ?thesis by blast
qed

lemma fillAround_settles:
  "fillAround g s rw cl ds g' s' \<Longrightarrow> (dr, dc) \<in> set ds \<Longrightarrow> \<not> revealable g' (rw + dr) (cl + dc)"
proof (induction ds arbitrary: g s)
  case Nil
  then show ?case by simp
next
  case (Cons d ds)
  from Cons.prems(1) obtain dr' dc' g1 s1 where d: "d = (dr', dc')"
    and f1: "fill g s (rw + dr') (cl + dc') g1 s1" and f2: "fillAround g1 s1 rw cl ds g' s'"
    by (cases rule: fillAround.cases) auto
  show ?case
  proof (cases "(dr, dc) = d")
    case True
    with fill_settles[OF f1] d have "\<not> revealable g1 (rw + dr) (cl + dc)" by simp
    with shown_revealable[OF fill_shown(2)[OF f2]] show ?thesis by blast
  next
    case False
    with Cons.prems(2) have "(dr, dc) \<in> set ds" by simp
    from Cons.IH[OF f2 this] show ?thesis .
  qed
qed

subsection \<open>The fill leaves no revealable cell next to a cell it has spread from\<close>

definition closedOver :: "grid \<Rightarrow> grid \<Rightarrow> bool" where
  "closedOver g g' \<longleftrightarrow>
     (\<forall>rw cl dr dc. (rw, cl) \<in> revealedSet g' \<longrightarrow> (rw, cl) \<notin> revealedSet g \<longrightarrow>
        spreads g rw cl \<longrightarrow> (dr, dc) \<in> set offsets \<longrightarrow> \<not> revealable g' (rw + dr) (cl + dc))"

lemma closedOver_refl: "closedOver g g"
  by (simp add: closedOver_def)

lemma closedOver_trans:
  assumes "closedOver g g1" "closedOver g1 g'" "cellsRel shown g g1" "cellsRel shown g1 g'"
  shows "closedOver g g'"
  unfolding closedOver_def
proof (intro allI impI)
  fix rw cl dr dc
  assume n: "(rw, cl) \<in> revealedSet g'" "(rw, cl) \<notin> revealedSet g" "spreads g rw cl"
    "(dr, dc) \<in> set offsets"
  show "\<not> revealable g' (rw + dr) (cl + dc)"
  proof (cases "(rw, cl) \<in> revealedSet g1")
    case True
    with assms(1) n have "\<not> revealable g1 (rw + dr) (cl + dc)" by (simp add: closedOver_def)
    with shown_revealable[OF assms(4)] show ?thesis by blast
  next
    case False
    moreover have "spreads g1 rw cl" using n(3) by (simp add: shown_spreads[OF assms(3)])
    ultimately show ?thesis using assms(2) n(1,4) by (simp add: closedOver_def)
  qed
qed

lemma cellAt_revealMines:
  "cellAt (revealMines g) rw cl
     = map_option (\<lambda>cell. if isMine cell then cell\<lparr>isRevealed := True\<rparr> else cell) (cellAt g rw cl)"
  by (auto simp: cellAt_def revealMines_def)

lemma closedOver_mine:
  assumes "cellAt g rw cl = Some x" "isMine x"
  shows "closedOver g (revealMines (setCell g (nat rw) (nat cl) (x\<lparr>isRevealed := True\<rparr>)))"
  unfolding closedOver_def
proof (intro allI impI)
  fix r c dr dc
  let ?g1 = "setCell g (nat rw) (nat cl) (x\<lparr>isRevealed := True\<rparr>)"
  assume n: "(r, c) \<in> revealedSet (revealMines ?g1)" "(r, c) \<notin> revealedSet g" "spreads g r c"
  from n(3) obtain z where z: "cellAt g r c = Some z" "\<not> isMine z" by (auto simp: spreads_iff)
  have ne: "\<not> (r = rw \<and> c = cl)" using z assms by auto
  have "cellAt ?g1 r c = Some z" using z(1) ne by (auto simp: cellAt_mark[OF assms(1)])
  then have "cellAt (revealMines ?g1) r c = Some z" using z(2) by (simp add: cellAt_revealMines)
  with n(1,2) z(1) have False by (auto simp: revealedSet_def)
  then show "\<not> revealable (revealMines ?g1) (r + dr) (c + dc)" ..
qed

lemma closedOver_number:
  assumes "cellAt g rw cl = Some x" "neighborMines x \<noteq> 0"
  shows "closedOver g (setCell g (nat rw) (nat cl) (x\<lparr>isRevealed := True\<rparr>))"
  using assms by (auto simp: closedOver_def revealedSet_mark[OF assms(1)] spreads_iff)

lemma fill_closed:
  "fill g s rw cl g' s' \<Longrightarrow> closedOver g g'"
  "fillAround g s rw cl ds g' s' \<Longrightarrow> closedOver g g'"
proof (induction rule: fill_fillAround.inducts)
  case (skip g rw cl s)
  show ?case by (rule closedOver_refl)
next
  case (mine g rw cl x s)
  show ?case by (rule closedOver_mine[OF mine(1,4)])
next
  case (number g rw cl x s)
  show ?case by (rule closedOver_number[OF number(1,5)])
next
  case (zero g rw cl x s g' s')
  let ?g1 = "setCell g (nat rw) (nat cl) (x\<lparr>isRevealed := True\<rparr>)"
  note r1 = shown_mark[OF zero(1)]
  note r2 = fill_shown(2)[OF zero(6)]
  show ?case
    unfolding closedOver_def
  proof (intro allI impI)
    fix r c dr dc
    assume n: "(r, c) \<in> revealedSet g'" "(r, c) \<notin> revealedSet g" "spreads g r c"
      "(dr, dc) \<in> set offsets"
    show "\<not> revealable g' (r + dr) (c + dc)"
    proof (cases "r = rw \<and> c = cl")
      case True
      with fillAround_settles[OF zero(6) n(4)] show ?thesis by simp
    next
      case False
      then have "(r, c) \<notin> revealedSet ?g1" using n(2) by (simp add: revealedSet_mark[OF zero(1)])
      moreover have "spreads ?g1 r c" using n(3) by (simp add: shown_spreads[OF r1])
      ultimately show ?thesis using zero.IH n(1,4) by (simp add: closedOver_def)
    qed
  qed
next
  case (nil g s rw cl)
  show ?case by (rule closedOver_refl)
next
  case (cons g s rw dr cl dc g1 s1 ds g' s')
  show ?case
    by (rule closedOver_trans[OF cons.IH fill_shown(1)[OF cons(1)] fill_shown(2)[OF cons(2)]])
qed

subsection \<open>The cells a reveal reaches\<close>

text \<open>
  The cascade from a cell: the cell itself when it is revealable, and every revealable cell
  next to a spreading cell of the cascade. It is cut at flagged cells and at cells that are
  revealed already.
\<close>

inductive_set cascade :: "grid \<Rightarrow> int \<Rightarrow> int \<Rightarrow> (int \<times> int) set" for g rw cl where
  start: "revealable g rw cl \<Longrightarrow> (rw, cl) \<in> cascade g rw cl"
| step: "(r, c) \<in> cascade g rw cl \<Longrightarrow> spreads g r c \<Longrightarrow> (dr, dc) \<in> set offsets \<Longrightarrow>
         revealable g (r + dr) (c + dc) \<Longrightarrow> (r + dr, c + dc) \<in> cascade g rw cl"

lemma cascade_mono:
  assumes "cellsRel shown g g1"
  shows "cascade g1 rw cl \<subseteq> cascade g rw cl"
proof -
  have "(r, c) \<in> cascade g rw cl" if "(r, c) \<in> cascade g1 rw cl" for r c
    using that
  proof (induction rule: cascade.induct)
    case start
    then show ?case using shown_revealable[OF assms] by (auto intro: cascade.start)
  next
    case (step r c dr dc)
    then show ?case
      using shown_revealable[OF assms] shown_spreads[OF assms] by (auto intro: cascade.step)
  qed
  then show ?thesis by auto
qed

lemma cascade_via:
  assumes "revealable g rw cl" "spreads g rw cl" "(dr, dc) \<in> set offsets"
  shows "cascade g (rw + dr) (cl + dc) \<subseteq> cascade g rw cl"
proof -
  have "(r, c) \<in> cascade g rw cl" if "(r, c) \<in> cascade g (rw + dr) (cl + dc)" for r c
    using that
  proof (induction rule: cascade.induct)
    case start
    then show ?case using assms by (auto intro: cascade.step cascade.start)
  next
    case (step r c dr dc)
    then show ?case by (auto intro: cascade.step)
  qed
  then show ?thesis by auto
qed

text \<open>Completeness: the whole cascade is revealed.\<close>

lemma fill_complete:
  assumes "fill g s rw cl g' s'"
  shows "cascade g rw cl \<subseteq> revealedSet g' - revealedSet g"
proof -
  note r = fill_shown(1)[OF assms]
  have "(r', c') \<in> revealedSet g' - revealedSet g" if "(r', c') \<in> cascade g rw cl" for r' c'
    using that
  proof (induction rule: cascade.induct)
    case start
    from shown_now_revealed[OF r start fill_settles[OF assms]] show ?case .
  next
    case (step r' c' dr dc)
    from fill_closed(1)[OF assms] step have "\<not> revealable g' (r' + dr) (c' + dc)"
      by (simp add: closedOver_def)
    from shown_now_revealed[OF r step(4) this] show ?case .
  qed
  then show ?thesis by auto
qed

subsection \<open>Boards on which a zero count means no mine around\<close>

definition safe :: "grid \<Rightarrow> bool" where
  "safe g \<longleftrightarrow>
     (\<forall>rw cl dr dc x. spreads g rw cl \<longrightarrow> (dr, dc) \<in> set offsets \<longrightarrow>
        cellAt g (rw + dr) (cl + dc) = Some x \<longrightarrow> \<not> isMine x)"

lemma shown_safe:
  assumes "cellsRel shown g g'" "safe g"
  shows "safe g'"
  unfolding safe_def
proof (intro allI impI)
  fix rw cl dr dc y
  assume a: "spreads g' rw cl" "(dr, dc) \<in> set offsets" "cellAt g' (rw + dr) (cl + dc) = Some y"
  from shown_cellAt_bwd[OF assms(1) a(3)] obtain x where
    x: "cellAt g (rw + dr) (cl + dc) = Some x" "shown (nat (rw + dr)) (nat (cl + dc)) x y" .
  from a(1) have "spreads g rw cl" by (simp add: shown_spreads[OF assms(1)])
  with assms(2) a(2) x(1) have "\<not> isMine x" unfolding safe_def by blast
  with shown_fields[OF x(2)] show "\<not> isMine y" by simp
qed

text \<open>What a reveal that meets no mine does: it keeps the game state and the mine cells.\<close>

definition untouchedMines :: "nat \<Rightarrow> nat \<Rightarrow> Cell \<Rightarrow> Cell \<Rightarrow> bool" where
  "untouchedMines i j x y \<longleftrightarrow> (isMine x \<longrightarrow> y = x)"

lemma fill_sound:
  "fill g s rw cl g' s' \<Longrightarrow> safe g \<Longrightarrow> (\<forall>x. cellAt g rw cl = Some x \<longrightarrow> \<not> isMine x) \<Longrightarrow>
     s' = s \<and> cellsRel untouchedMines g g' \<and> revealedSet g' \<subseteq> revealedSet g \<union> cascade g rw cl"
  "fillAround g s rw cl ds g' s' \<Longrightarrow> safe g \<Longrightarrow> spreads g rw cl \<Longrightarrow> set ds \<subseteq> set offsets \<Longrightarrow>
     s' = s \<and> cellsRel untouchedMines g g' \<and>
     revealedSet g' \<subseteq> revealedSet g \<union> (\<Union>(dr, dc) \<in> set ds. cascade g (rw + dr) (cl + dc))"
proof (induction rule: fill_fillAround.inducts)
  case (skip g rw cl s)
  show ?case by (simp add: cellsRel_refl untouchedMines_def)
next
  case (mine g rw cl x s)
  then show ?case by simp
next
  case (number g rw cl x s)
  have b: "nat rw < length g" "nat cl < length (g ! nat rw)" and xe: "x = g ! nat rw ! nat cl"
    using number(1) by (simp_all add: cellAt_Some_iff)
  have "cellsRel untouchedMines g (setCell g (nat rw) (nat cl) (x\<lparr>isRevealed := True\<rparr>))"
    by (rule cellsRel_setCell[OF b]) (use number(4) xe in \<open>simp_all add: untouchedMines_def\<close>)
  moreover have "revealable g rw cl" using number(1-3) by (simp add: revealable_iff)
  then have "(rw, cl) \<in> cascade g rw cl" by (rule cascade.start)
  ultimately show ?case by (simp add: revealedSet_mark[OF number(1)])
next
  case (zero g rw cl x s g' s')
  let ?g1 = "setCell g (nat rw) (nat cl) (x\<lparr>isRevealed := True\<rparr>)"
  note r1 = shown_mark[OF zero(1)]
  have b: "nat rw < length g" "nat cl < length (g ! nat rw)" and xe: "x = g ! nat rw ! nat cl"
    using zero(1) by (simp_all add: cellAt_Some_iff)
  have u1: "cellsRel untouchedMines g ?g1"
    by (rule cellsRel_setCell[OF b]) (use zero(4) xe in \<open>simp_all add: untouchedMines_def\<close>)
  have rv: "revealable g rw cl" using zero(1-3) by (simp add: revealable_iff)
  have sp: "spreads g rw cl" using zero(1,4,5) by (simp add: spreads_iff)
  then have sp1: "spreads ?g1 rw cl" by (simp add: shown_spreads[OF r1])
  from zero.IH[OF shown_safe[OF r1 zero.prems(1)] sp1 subset_refl]
  have s: "s' = s" and u2: "cellsRel untouchedMines ?g1 g'"
    and sub: "revealedSet g' \<subseteq> revealedSet ?g1 \<union> (\<Union>(dr, dc) \<in> set offsets. cascade ?g1 (rw + dr) (cl + dc))"
    by simp_all
  have "cascade ?g1 (rw + dr) (cl + dc) \<subseteq> cascade g rw cl" if "(dr, dc) \<in> set offsets" for dr dc
    using cascade_mono[OF r1, of "rw + dr" "cl + dc"] cascade_via[OF rv sp that] by blast
  then have "(\<Union>(dr, dc) \<in> set offsets. cascade ?g1 (rw + dr) (cl + dc)) \<subseteq> cascade g rw cl"
    by auto
  moreover have "revealedSet ?g1 \<subseteq> revealedSet g \<union> cascade g rw cl"
    using cascade.start[OF rv] by (simp add: revealedSet_mark[OF zero(1)] subset_insertI2)
  ultimately have "revealedSet g' \<subseteq> revealedSet g \<union> cascade g rw cl" using sub by blast
  moreover have "cellsRel untouchedMines g g'"
    by (rule cellsRel_trans[OF u1 u2]) (auto simp: untouchedMines_def)
  ultimately show ?case using s by simp
next
  case (nil g s rw cl)
  show ?case by (simp add: cellsRel_refl untouchedMines_def)
next
  case (cons g s rw dr cl dc g1 s1 ds g' s')
  note r1 = fill_shown(1)[OF cons(1)]
  from cons.prems have d: "(dr, dc) \<in> set offsets" and ds: "set ds \<subseteq> set offsets" by simp_all
  have nm: "\<forall>x. cellAt g (rw + dr) (cl + dc) = Some x \<longrightarrow> \<not> isMine x"
    using cons.prems(1,2) d unfolding safe_def by blast
  from cons.IH(1)[OF cons.prems(1) nm]
  have s1: "s1 = s" and u1: "cellsRel untouchedMines g g1"
    and sub1: "revealedSet g1 \<subseteq> revealedSet g \<union> cascade g (rw + dr) (cl + dc)" by simp_all
  have sp1: "spreads g1 rw cl" using cons.prems(2) by (simp add: shown_spreads[OF r1])
  from cons.IH(2)[OF shown_safe[OF r1 cons.prems(1)] sp1 ds]
  have s2: "s' = s1" and u2: "cellsRel untouchedMines g1 g'"
    and sub2: "revealedSet g' \<subseteq> revealedSet g1 \<union> (\<Union>(dr, dc) \<in> set ds. cascade g1 (rw + dr) (cl + dc))"
    by simp_all
  have "(\<Union>(dr, dc) \<in> set ds. cascade g1 (rw + dr) (cl + dc))
          \<subseteq> (\<Union>(dr, dc) \<in> set ds. cascade g (rw + dr) (cl + dc))"
    using cascade_mono[OF r1] by blast
  with sub1 sub2 have "revealedSet g' \<subseteq> revealedSet g \<union>
      (\<Union>(dr, dc) \<in> set ((dr, dc) # ds). cascade g (rw + dr) (cl + dc))"
    by auto
  moreover have "cellsRel untouchedMines g g'"
    by (rule cellsRel_trans[OF u1 u2]) (auto simp: untouchedMines_def)
  ultimately show ?case using s1 s2 by simp
qed

lemma finite_mineNeighbour_set:
  "finite {(nr, nc). nr < length g \<and> nc < length (g ! nr) \<and> (nr, nc) \<noteq> (r, c) \<and>
                     \<bar>int nr - int r\<bar> \<le> 1 \<and> \<bar>int nc - int c\<bar> \<le> 1 \<and> isMine (g ! nr ! nc)}"
  by (rule finite_subset[of _ "{..<length g} \<times> {..c + 1}"]) auto

lemma countsExact_safe:
  assumes "countsExact g"
  shows "safe g"
  unfolding safe_def
proof (intro allI impI notI)
  fix rw cl dr dc y
  assume sp: "spreads g rw cl" and d: "(dr, dc) \<in> set offsets"
    and y: "cellAt g (rw + dr) (cl + dc) = Some y" and m: "isMine y"
  from sp obtain x where x: "cellAt g rw cl = Some x" "\<not> isMine x" "neighborMines x = 0"
    by (auto simp: spreads_iff)
  from x(1) have b: "0 \<le> rw" "0 \<le> cl" "nat rw < length g" "nat cl < length (g ! nat rw)"
    and xe: "x = g ! nat rw ! nat cl" by (simp_all add: cellAt_Some_iff)
  from y have b': "0 \<le> rw + dr" "0 \<le> cl + dc" "nat (rw + dr) < length g"
    "nat (cl + dc) < length (g ! nat (rw + dr))"
    and ye: "y = g ! nat (rw + dr) ! nat (cl + dc)" by (simp_all add: cellAt_Some_iff)
  let ?S = "{(nr, nc). nr < length g \<and> nc < length (g ! nr) \<and> (nr, nc) \<noteq> (nat rw, nat cl) \<and>
              \<bar>int nr - int (nat rw)\<bar> \<le> 1 \<and> \<bar>int nc - int (nat cl)\<bar> \<le> 1 \<and> isMine (g ! nr ! nc)}"
  have "mineNeighbours g (nat rw) (nat cl) = 0"
    using assms b x xe by (simp add: countsExact_def)
  then have e: "?S = {}"
    unfolding mineNeighbours_def using finite_mineNeighbour_set[of g "nat rw" "nat cl"] by simp
  have "(nat (rw + dr), nat (cl + dc)) \<in> ?S"
  proof -
    have "(nat (rw + dr), nat (cl + dc)) \<noteq> (nat rw, nat cl)"
      using m x(2) xe ye by auto
    moreover have "\<bar>int (nat (rw + dr)) - int (nat rw)\<bar> \<le> 1" "\<bar>int (nat (cl + dc)) - int (nat cl)\<bar> \<le> 1"
      using b b' d by (simp_all add: set_offsets)
    ultimately show ?thesis using b' m ye by simp
  qed
  then show False unfolding e by simp
qed

section \<open>States of a game\<close>

text \<open>
  The states the handlers move between: the board has the dimensions of the difficulty, before
  the first reveal it holds no mine, afterwards it holds \<open>mines\<close> mines and exact counts.
\<close>

definition wfGame :: "Game \<Rightarrow> bool" where
  "wfGame s \<longleftrightarrow>
     hasDims (DIFFICULTIES (difficulty s)) (grid s) \<and>
     (if status s = Idle then mineTotal (grid s) = 0
      else mineTotal (grid s) = mines (DIFFICULTIES (difficulty s)) \<and> countsExact (grid s))"

lemma mineTotal_initGrid: "mineTotal (initGrid config) = 0"
proof -
  have "\<forall>x \<in> set (concat (initGrid config)). \<not> isMine x" by (auto simp: initGrid_def)
  then show ?thesis by (simp add: mineTotal_def filter_empty_conv)
qed

lemma wfGame_startGame: "wfGame (startGame s)"
  by (simp add: wfGame_def startGame_def Let_def hasDims_initGrid mineTotal_initGrid)

lemma countsExact_cong:
  assumes "cellsRel (\<lambda>i j x y. isMine y = isMine x \<and> neighborMines y = neighborMines x) g g'"
    and "countsExact g"
  shows "countsExact g'"
proof -
  have "cellsRel (\<lambda>i j x y. isMine y = isMine x) g g'"
    by (rule cellsRel_mono[OF assms(1)]) simp
  then have mn: "\<And>r c. mineNeighbours g' r c = mineNeighbours g r c" by (rule mineNeighbours_cong)
  show ?thesis
    unfolding countsExact_def
  proof (intro allI impI)
    fix r c assume rc: "r < length g'" "c < length (g' ! r)" and nm: "\<not> isMine (g' ! r ! c)"
    have b: "r < length g" "c < length (g ! r)"
      using rc cellsRel_length[OF assms(1)] cellsRel_length_nth[OF assms(1), of r] by simp_all
    from cellsRel_nth[OF assms(1) b] nm assms(2) b
    show "neighborMines (g' ! r ! c) = mineNeighbours g' r c"
      by (simp add: countsExact_def mn)
  qed
qed

lemma shown_keeps:
  assumes "cellsRel shown g g'"
  shows "mineTotal g' = mineTotal g" "countsExact g \<Longrightarrow> countsExact g'"
proof -
  have r: "cellsRel (\<lambda>i j x y. isMine y = isMine x \<and> neighborMines y = neighborMines x) g g'"
    by (rule cellsRel_mono[OF assms]) (simp add: shown_fields)
  show "countsExact g \<Longrightarrow> countsExact g'" by (rule countsExact_cong[OF r])
  have "cellsRel (\<lambda>i j x y. isMine y = isMine x) g g'" by (rule cellsRel_mono[OF r]) simp
  then show "mineTotal g' = mineTotal g" by (rule mineTotal_cong)
qed

text \<open>What \<open>toggleFlag\<close> may do to a cell: change \<open>isFlagged\<close>.\<close>

definition flagged :: "nat \<Rightarrow> nat \<Rightarrow> Cell \<Rightarrow> Cell \<Rightarrow> bool" where
  "flagged i j x y \<longleftrightarrow> y = x\<lparr>isFlagged := isFlagged y\<rparr>"

lemma flagged_fields:
  "flagged i j x y \<Longrightarrow> isMine y = isMine x \<and> neighborMines y = neighborMines x \<and>
     isRevealed y = isRevealed x"
  unfolding flagged_def by (cases x, cases y) auto

lemma toggleFlag_cases:
  assumes "toggleFlag s r c = Some s'"
  obtains (same) "s' = s"
  | (flip) x where "status s \<noteq> Won" "status s \<noteq> Lost" "cellAt (grid s) (int r) (int c) = Some x"
      "\<not> isRevealed x"
      "s' = s\<lparr>grid := setCell (grid s) r c (x\<lparr>isFlagged := \<not> isFlagged x\<rparr>),
             mineCount := (if isFlagged x then mineCount s + 1 else mineCount s - 1)\<rparr>"
proof (cases "status s = Won \<or> status s = Lost")
  case True
  with assms have "s' = s" by (simp add: toggleFlag_def)
  then show ?thesis by (rule same)
next
  case ns: False
  show ?thesis
  proof (cases "cellAt (grid s) (int r) (int c)")
    case None
    with assms ns show ?thesis by (simp add: toggleFlag_def)
  next
    case (Some x)
    show ?thesis
    proof (cases "isRevealed x")
      case True
      with assms ns Some have "s' = s" by (simp add: toggleFlag_def)
      then show ?thesis by (rule same)
    next
      case False
      with assms ns Some
      have "s' = s\<lparr>grid := setCell (grid s) r c (x\<lparr>isFlagged := \<not> isFlagged x\<rparr>),
                     mineCount := (if isFlagged x then mineCount s + 1 else mineCount s - 1)\<rparr>"
        by (cases "isFlagged x") (auto simp: toggleFlag_def Let_def)
      with ns Some False show ?thesis by (intro flip[of x]) simp_all
    qed
  qed
qed

lemma wfGame_toggleFlag:
  assumes "wfGame s" "toggleFlag s r c = Some s'"
  shows "wfGame s'"
  using assms(2)
proof (cases rule: toggleFlag_cases)
  case same
  with assms(1) show ?thesis by simp
next
  case (flip x)
  let ?g' = "setCell (grid s) r c (x\<lparr>isFlagged := \<not> isFlagged x\<rparr>)"
  from flip(3) have b: "r < length (grid s)" "c < length (grid s ! r)"
    and xe: "x = grid s ! r ! c" by (simp_all add: cellAt_Some_iff)
  have rel: "cellsRel flagged (grid s) ?g'"
    by (rule cellsRel_setCell[OF b]) (simp_all add: flagged_def xe)
  have r2: "cellsRel (\<lambda>i j x y. isMine y = isMine x \<and> neighborMines y = neighborMines x) (grid s) ?g'"
    by (rule cellsRel_mono[OF rel]) (simp add: flagged_fields)
  have "cellsRel (\<lambda>i j x y. isMine y = isMine x) (grid s) ?g'" by (rule cellsRel_mono[OF r2]) simp
  then have mt: "mineTotal ?g' = mineTotal (grid s)" by (rule mineTotal_cong)
  show ?thesis
    using assms(1) cellsRel_hasDims[OF rel] countsExact_cong[OF r2] mt
    by (auto simp: wfGame_def flip(5))
qed

section \<open>The parts of \<open>revealCell\<close>\<close>

lemma stopTimer_fields [simp]:
  "difficulty (stopTimer s) = difficulty s" "grid (stopTimer s) = grid s"
  "status (stopTimer s) = status s" "mineCount (stopTimer s) = mineCount s"
  "timer (stopTimer s) = timer s"
  by (simp_all add: stopTimer_def)

lemma startTimer_fields [simp]:
  "difficulty (startTimer s) = difficulty s" "grid (startTimer s) = grid s"
  "status (startTimer s) = status s" "mineCount (startTimer s) = mineCount s"
  "timer (startTimer s) = timer s"
  by (simp_all add: startTimer_def)

lemma lose_fields [simp]:
  "difficulty (lose s) = difficulty s" "grid (lose s) = grid s"
  "status (lose s) = Lost" "mineCount (lose s) = mineCount s"
  by (simp_all add: lose_def)

text \<open>
  The first part of \<open>revealCell\<close>: the board and the queued state the fill starts from.
  The last part: the win test on the board the fill has left.
\<close>

definition firstPhase :: "(nat \<times> nat) list \<Rightarrow> Game \<Rightarrow> nat \<Rightarrow> nat \<Rightarrow> (grid \<times> Game) option" where
  "firstPhase draws s r c =
     (if status s = Idle
      then map_option (\<lambda>g. (g, startTimer (s\<lparr>status := Playing\<rparr>)))
             (placeMines (difficulty s) (grid s) r c draws)
      else Some (grid s, s))"

definition settled :: "Game \<Rightarrow> grid \<Rightarrow> Game \<Rightarrow> Game" where
  "settled s newGrid s2 =
     (if unrevealedCount newGrid = mines (DIFFICULTIES (difficulty s))
      then stopTimer (s2\<lparr>grid := newGrid, status := Won\<rparr>)
      else s2\<lparr>grid := newGrid\<rparr>)"

lemma settled_fields [simp]:
  "grid (settled s newGrid s2) = newGrid" "difficulty (settled s newGrid s2) = difficulty s2"
  "mineCount (settled s newGrid s2) = mineCount s2"
  "status (settled s newGrid s2)
     = (if unrevealedCount newGrid = mines (DIFFICULTIES (difficulty s)) then Won else status s2)"
  by (simp_all add: settled_def)

lemma revealCell_over: "status s = Won \<or> status s = Lost \<Longrightarrow> revealCell draws s r c = Some s"
  by (simp add: revealCell_def)

lemma revealCell_blocked:
  "cellAt (grid s) (int r) (int c) = Some x \<Longrightarrow> isRevealed x \<or> isFlagged x \<Longrightarrow>
     revealCell draws s r c = Some s"
  by (simp add: revealCell_def)

lemma revealCell_off_board:
  "status s \<noteq> Won \<Longrightarrow> status s \<noteq> Lost \<Longrightarrow> cellAt (grid s) (int r) (int c) = None \<Longrightarrow>
     revealCell draws s r c = None"
  by (simp add: revealCell_def)

lemma revealCell_acts:
  assumes "status s \<noteq> Won" "status s \<noteq> Lost" "cellAt (grid s) (int r) (int c) = Some x"
    "\<not> isRevealed x" "\<not> isFlagged x"
  shows "revealCell draws s r c =
     (case firstPhase draws s r c of
        None \<Rightarrow> None
      | Some (currentGrid, s1) \<Rightarrow>
          (case reveal currentGrid s1 (int r) (int c) of
             None \<Rightarrow> None
           | Some (newGrid, s2) \<Rightarrow> Some (settled s newGrid s2)))"
  using assms
  by (simp add: revealCell_def firstPhase_def settled_def Let_def
           split: option.split prod.split)

lemma placed_refl: "placed fr fc i j x x"
  by (simp add: placed_def)

lemma placed_fields:
  "placed fr fc i j x y \<Longrightarrow> isRevealed y = isRevealed x \<and> isFlagged y = isFlagged x"
  unfolding placed_def by (cases x, cases y) auto

lemma firstPhase_wf:
  assumes "wfGame s" "status s \<noteq> Won" "status s \<noteq> Lost"
    and "firstPhase draws s r c = Some (cur, s1)"
  shows "hasDims (DIFFICULTIES (difficulty s)) cur" "countsExact cur"
    "mineTotal cur = mines (DIFFICULTIES (difficulty s))"
    "status s1 = Playing" "difficulty s1 = difficulty s" "mineCount s1 = mineCount s"
    "cellsRel (placed r c) (grid s) cur"
proof -
  have hd: "hasDims (DIFFICULTIES (difficulty s)) (grid s)" using assms(1) by (simp add: wfGame_def)
  have all: "hasDims (DIFFICULTIES (difficulty s)) cur \<and> countsExact cur \<and>
      mineTotal cur = mines (DIFFICULTIES (difficulty s)) \<and> status s1 = Playing \<and>
      difficulty s1 = difficulty s \<and> mineCount s1 = mineCount s \<and>
      cellsRel (placed r c) (grid s) cur"
  proof (cases "status s = Idle")
    case True
    with assms(4) have pm: "placeMines (difficulty s) (grid s) r c draws = Some cur"
      and s1: "s1 = startTimer (s\<lparr>status := Playing\<rparr>)"
      by (auto simp: firstPhase_def)
    have "mineTotal (grid s) = 0" using assms(1) True by (simp add: wfGame_def)
    with placeMines_result[OF hd pm] s1 show ?thesis by simp
  next
    case False
    with assms(4) have e: "cur = grid s" "s1 = s" by (auto simp: firstPhase_def)
    have "status s = Playing" using False assms(2,3) by (cases "status s") simp_all
    moreover have "cellsRel (placed r c) (grid s) (grid s)"
      by (rule cellsRel_refl) (rule placed_refl)
    ultimately show ?thesis using assms(1) False e by (simp add: wfGame_def)
  qed
  then show "hasDims (DIFFICULTIES (difficulty s)) cur" "countsExact cur"
    "mineTotal cur = mines (DIFFICULTIES (difficulty s))"
    "status s1 = Playing" "difficulty s1 = difficulty s" "mineCount s1 = mineCount s"
    "cellsRel (placed r c) (grid s) cur" by simp_all
qed

text \<open>
  A reveal that is not stopped at the first line of \<open>revealCell\<close>, on a state of a game: the
  fill runs from the first phase and the win test follows.
\<close>

lemma revealCell_run:
  assumes wf: "wfGame s" and st: "status s \<noteq> Won" "status s \<noteq> Lost"
    and x: "cellAt (grid s) (int r) (int c) = Some x" "\<not> isRevealed x" "\<not> isFlagged x"
    and fp: "firstPhase draws s r c = Some (cur, s1)"
  obtains newGrid s2 where "reveal cur s1 (int r) (int c) = Some (newGrid, s2)"
    "fill cur s1 (int r) (int c) newGrid s2"
    "revealCell draws s r c = Some (settled s newGrid s2)"
proof -
  from reveal_fill(1)[OF firstPhase_wf(1)[OF wf st fp], of s1 "int r" "int c"]
  obtain newGrid s2 where rv: "reveal cur s1 (int r) (int c) = Some (newGrid, s2)"
    and fl: "fill cur s1 (int r) (int c) newGrid s2" by blast
  have "revealCell draws s r c = Some (settled s newGrid s2)"
    by (simp add: revealCell_acts[OF st x] fp rv)
  with rv fl show ?thesis by (rule that)
qed

lemma revealCell_cases:
  assumes wf: "wfGame s" and rc: "revealCell draws s r c = Some s'"
  obtains (same) "s' = s" "status s = Won \<or> status s = Lost \<or>
      (\<exists>x. cellAt (grid s) (int r) (int c) = Some x \<and> (isRevealed x \<or> isFlagged x))"
  | (run) x cur s1 newGrid s2 where "status s \<noteq> Won" "status s \<noteq> Lost"
      "cellAt (grid s) (int r) (int c) = Some x" "\<not> isRevealed x" "\<not> isFlagged x"
      "firstPhase draws s r c = Some (cur, s1)"
      "reveal cur s1 (int r) (int c) = Some (newGrid, s2)"
      "fill cur s1 (int r) (int c) newGrid s2" "s' = settled s newGrid s2"
proof (cases "status s = Won \<or> status s = Lost")
  case True
  with rc have "s' = s" by (simp add: revealCell_over)
  with True show ?thesis by (intro same) auto
next
  case st: False
  show ?thesis
  proof (cases "cellAt (grid s) (int r) (int c)")
    case None
    with rc st show ?thesis by (simp add: revealCell_off_board)
  next
    case (Some x)
    show ?thesis
    proof (cases "isRevealed x \<or> isFlagged x")
      case True
      with rc Some have "s' = s" by (simp add: revealCell_blocked)
      with True Some show ?thesis by (intro same) auto
    next
      case False
      then have x: "\<not> isRevealed x" "\<not> isFlagged x" by simp_all
      from st have st': "status s \<noteq> Won" "status s \<noteq> Lost" by simp_all
      show ?thesis
      proof (cases "firstPhase draws s r c")
        case None
        with rc show ?thesis by (simp add: revealCell_acts[OF st' Some x])
      next
        case (Some p)
        obtain cur s1 where p: "p = (cur, s1)" by (cases p)
        from Some p have fp: "firstPhase draws s r c = Some (cur, s1)" by simp
        from revealCell_run[OF wf st' \<open>cellAt (grid s) (int r) (int c) = Some x\<close> x fp]
        obtain newGrid s2 where "reveal cur s1 (int r) (int c) = Some (newGrid, s2)"
          "fill cur s1 (int r) (int c) newGrid s2"
          "revealCell draws s r c = Some (settled s newGrid s2)" .
        with rc st' \<open>cellAt (grid s) (int r) (int c) = Some x\<close> x fp show ?thesis
          by (intro run[of x cur s1 newGrid s2]) simp_all
      qed
    qed
  qed
qed

lemma wfGame_revealCell:
  assumes wf: "wfGame s" and rc: "revealCell draws s r c = Some s'"
  shows "wfGame s'"
  using wf rc
proof (cases rule: revealCell_cases)
  case same
  with wf show ?thesis by simp
next
  case (run x cur s1 newGrid s2)
  note fw = firstPhase_wf[OF wf run(1,2,6)]
  note sh = fill_shown(1)[OF run(8)]
  from fill_status(1)[OF run(8)] fw(4,5)
  have s2: "difficulty s2 = difficulty s" "status s2 = Playing \<or> status s2 = Lost" by auto
  have "hasDims (DIFFICULTIES (difficulty s)) newGrid" by (rule cellsRel_hasDims[OF sh fw(1)])
  moreover have "countsExact newGrid" by (rule shown_keeps(2)[OF sh fw(2)])
  moreover have "mineTotal newGrid = mines (DIFFICULTIES (difficulty s))"
    using shown_keeps(1)[OF sh] fw(3) by simp
  ultimately show ?thesis using s2 by (auto simp: wfGame_def run(9))
qed

text \<open>
  The states a game passes through: \<open>startGame\<close> runs when the component is mounted, on
  restart and after a change of difficulty; then the two handlers run.
\<close>

inductive reachable :: "Game \<Rightarrow> bool" where
  started: "reachable (startGame s)"
| revealed: "reachable s \<Longrightarrow> revealCell draws s r c = Some s' \<Longrightarrow> reachable s'"
| toggled: "reachable s \<Longrightarrow> toggleFlag s r c = Some s' \<Longrightarrow> reachable s'"

lemma reachable_wfGame: "reachable s \<Longrightarrow> wfGame s"
proof (induction rule: reachable.induct)
  case (started s)
  show ?case by (rule wfGame_startGame)
next
  case (revealed s draws r c s')
  then show ?case by (blast intro: wfGame_revealCell)
next
  case (toggled s r c s')
  then show ?case by (blast intro: wfGame_toggleFlag)
qed

section \<open>Restart\<close>

text \<open>
  C8. From any state, \<open>startGame\<close> sets the status to idle, the mine counter to the mine count
  of the current difficulty and the elapsed time to 0, and the board becomes a fresh
  rows by cols grid whose cells all have \<open>isMine\<close>, \<open>isRevealed\<close> and \<open>isFlagged\<close> false and
  \<open>neighborMines\<close> 0.
\<close>

theorem startGame_resets:
  "status (startGame s) = Idle \<and>
   mineCount (startGame s) = int (mines (DIFFICULTIES (difficulty s))) \<and>
   timer (startGame s) = 0 \<and>
   hasDims (DIFFICULTIES (difficulty s)) (grid (startGame s)) \<and>
   (\<forall>r < rows (DIFFICULTIES (difficulty s)). \<forall>c < cols (DIFFICULTIES (difficulty s)).
      grid (startGame s) ! r ! c =
        \<lparr>row = r, col = c, isMine = False, isRevealed = False, isFlagged = False,
         neighborMines = 0\<rparr>)"
  by (simp add: startGame_def Let_def hasDims_initGrid initGrid_nth)

section \<open>The fill: the claims\<close>

text \<open>
  C10. On a board with exact counts, a fill started from a cell that is no mine returns the
  game state it was given (no status is set, the timer is not stopped) and leaves every mine
  cell as it was: the mine branch of \<open>reveal\<close> is not taken in the recursion, because no
  neighbour of a cell that is no mine and counts 0 is a mine.
\<close>

theorem cascade_never_hits_mine:
  assumes "hasDims config g" and "countsExact g"
    and "cellAt g rw cl = Some x" and "\<not> isMine x"
  shows "(\<exists>g'. reveal g s rw cl = Some (g', s) \<and>
               (\<forall>r c y. cellAt g r c = Some y \<longrightarrow> isMine y \<longrightarrow> cellAt g' r c = Some y)) \<and>
         (neighborMines x = 0 \<longrightarrow>
            (\<forall>dr dc y. (dr, dc) \<in> set offsets \<longrightarrow> cellAt g (rw + dr) (cl + dc) = Some y \<longrightarrow>
               \<not> isMine y))"
proof
  note sf = countsExact_safe[OF assms(2)]
  from reveal_fill(1)[OF assms(1), of s rw cl] obtain g' s' where
    rv: "reveal g s rw cl = Some (g', s')" and fl: "fill g s rw cl g' s'" by blast
  from fill_sound(1)[OF fl sf] assms(3,4)
  have s: "s' = s" and um: "cellsRel untouchedMines g g'" by simp_all
  have "cellAt g' r c = Some y" if "cellAt g r c = Some y" "isMine y" for r c y
    using cellsRel_cellAt[OF um that(1)] that(2) by (auto simp: untouchedMines_def)
  with rv s show "\<exists>g'. reveal g s rw cl = Some (g', s) \<and>
      (\<forall>r c y. cellAt g r c = Some y \<longrightarrow> isMine y \<longrightarrow> cellAt g' r c = Some y)" by blast
  show "neighborMines x = 0 \<longrightarrow>
      (\<forall>dr dc y. (dr, dc) \<in> set offsets \<longrightarrow> cellAt g (rw + dr) (cl + dc) = Some y \<longrightarrow> \<not> isMine y)"
  proof (intro impI allI)
    fix dr dc y
    assume "neighborMines x = 0" "(dr, dc) \<in> set offsets" "cellAt g (rw + dr) (cl + dc) = Some y"
    moreover from \<open>neighborMines x = 0\<close> assms(3,4) have "spreads g rw cl" by (simp add: spreads_iff)
    ultimately show "\<not> isMine y" using sf unfolding safe_def by blast
  qed
qed

text \<open>
  C4, as the code has it. On a board with exact counts, revealing a cell that is revealable
  and no mine changes nothing but \<open>isRevealed\<close> fields and reveals exactly the cascade of the
  cell: the cell, and every revealable cell next to a cell of the cascade that counts 0. The
  cascade stops at flagged cells and at cells revealed before; a cell with a count above 0 is
  revealed and spreads no further.
\<close>

theorem reveal_reveals_cascade:
  assumes "hasDims config g" and "countsExact g"
    and "cellAt g rw cl = Some x" and "\<not> isRevealed x" and "\<not> isFlagged x" and "\<not> isMine x"
  shows "\<exists>g'. reveal g s rw cl = Some (g', s) \<and> cellsRel shown g g' \<and>
              revealedSet g' = revealedSet g \<union> cascade g rw cl"
proof -
  from reveal_fill(1)[OF assms(1), of s rw cl] obtain g' s' where
    rv: "reveal g s rw cl = Some (g', s')" and fl: "fill g s rw cl g' s'" by blast
  from fill_sound(1)[OF fl countsExact_safe[OF assms(2)]] assms(3,6)
  have s: "s' = s" and sub: "revealedSet g' \<subseteq> revealedSet g \<union> cascade g rw cl" by simp_all
  note sh = fill_shown(1)[OF fl]
  from fill_complete[OF fl] shown_revealedSet[OF sh] sub
  have "revealedSet g' = revealedSet g \<union> cascade g rw cl" by blast
  with rv s sh show ?thesis by blast
qed

text \<open>
  The set C4 names: the connected region of cells that count 0 around the cell, leaving out
  flagged cells, and the cells bordering it.
\<close>

definition unflagged :: "grid \<Rightarrow> int \<Rightarrow> int \<Rightarrow> bool" where
  "unflagged g rw cl = (case cellAt g rw cl of None \<Rightarrow> False | Some x \<Rightarrow> \<not> isFlagged x)"

inductive_set zeroRegion :: "grid \<Rightarrow> int \<Rightarrow> int \<Rightarrow> (int \<times> int) set" for g rw cl where
  origin: "spreads g rw cl \<Longrightarrow> (rw, cl) \<in> zeroRegion g rw cl"
| grow: "(r, c) \<in> zeroRegion g rw cl \<Longrightarrow> (dr, dc) \<in> set offsets \<Longrightarrow>
         spreads g (r + dr) (c + dc) \<Longrightarrow> unflagged g (r + dr) (c + dc) \<Longrightarrow>
         (r + dr, c + dc) \<in> zeroRegion g rw cl"

definition regionWithBorder :: "grid \<Rightarrow> int \<Rightarrow> int \<Rightarrow> (int \<times> int) set" where
  "regionWithBorder g rw cl =
     zeroRegion g rw cl \<union>
     {(r + dr, c + dc) | r c dr dc.
        (r, c) \<in> zeroRegion g rw cl \<and> (dr, dc) \<in> set offsets \<and> unflagged g (r + dr) (c + dc)}"

section \<open>The handlers: the claims\<close>

lemma zone_free:
  assumes "wfGame s" "status s = Idle"
    and "placeMines (difficulty s) (grid s) r c draws = Some cur"
    and "(dr, dc) \<in> set offsets" "cellAt cur (int r + dr) (int c + dc) = Some y"
  shows "\<not> isMine y"
proof -
  have hd: "hasDims (DIFFICULTIES (difficulty s)) (grid s)" and mt: "mineTotal (grid s) = 0"
    using assms(1,2) by (simp_all add: wfGame_def)
  note rel = placeMines_result(2)[OF hd assms(3)]
  from assms(5) have b: "0 \<le> int r + dr" "0 \<le> int c + dc" "nat (int r + dr) < length cur"
    "nat (int c + dc) < length (cur ! nat (int r + dr))"
    and ye: "y = cur ! nat (int r + dr) ! nat (int c + dc)" by (simp_all add: cellAt_Some_iff)
  have b0: "nat (int r + dr) < length (grid s)"
    "nat (int c + dc) < length (grid s ! nat (int r + dr))"
    using b cellsRel_length[OF rel] cellsRel_length_nth[OF rel, of "nat (int r + dr)"] by simp_all
  have "inZone r c (nat (int r + dr)) (nat (int c + dc))"
    using assms(4) b by (simp add: inZone_def set_offsets)
  with cellsRel_nth[OF rel b0] mineTotal_0_nth[OF mt b0] ye show ?thesis
    by (auto simp: placed_def)
qed

lemma anchor_zero:
  assumes "wfGame s" "status s = Idle"
    and "placeMines (difficulty s) (grid s) r c draws = Some cur"
    and "cellAt cur (int r) (int c) = Some y"
  shows "\<not> isMine y" "neighborMines y = 0"
proof -
  have o: "(0, 0) \<in> set offsets" by (simp add: set_offsets)
  from zone_free[OF assms(1-3) o] assms(4) show nm: "\<not> isMine y" by simp
  have hd: "hasDims (DIFFICULTIES (difficulty s)) (grid s)"
    using assms(1) by (simp add: wfGame_def)
  from assms(4) have b: "r < length cur" "c < length (cur ! r)" and ye: "y = cur ! r ! c"
    by (simp_all add: cellAt_Some_iff)
  have "{(nr, nc). nr < length cur \<and> nc < length (cur ! nr) \<and> (nr, nc) \<noteq> (r, c) \<and>
           \<bar>int nr - int r\<bar> \<le> 1 \<and> \<bar>int nc - int c\<bar> \<le> 1 \<and> isMine (cur ! nr ! nc)} = {}"
  proof -
    have "\<not> isMine (cur ! nr ! nc)"
      if "nr < length cur" "nc < length (cur ! nr)" "\<bar>int nr - int r\<bar> \<le> 1" "\<bar>int nc - int c\<bar> \<le> 1"
      for nr nc
    proof -
      have "(int nr - int r, int nc - int c) \<in> set offsets" using that by (simp add: set_offsets)
      moreover have "cellAt cur (int r + (int nr - int r)) (int c + (int nc - int c))
                       = Some (cur ! nr ! nc)"
        using that by (simp add: cellAt_Some_iff)
      ultimately show ?thesis using zone_free[OF assms(1-3)] by blast
    qed
    then show ?thesis by auto
  qed
  then have "mineNeighbours cur r c = 0" unfolding mineNeighbours_def by (simp only: card.empty)
  with placeMines_result(4)[OF hd assms(3)] b nm ye show "neighborMines y = 0"
    by (simp add: countsExact_def)
qed

lemma fresh_unmined:
  assumes "hasDims config g" "mineTotal g = 0" "drawsInRange config ds"
  shows "fresh fr fc g ds
           = {(r, c). (r, c) \<in> set ds \<and> \<not> (\<bar>int r - int fr\<bar> \<le> 1 \<and> \<bar>int c - int fc\<bar> \<le> 1)}"
proof -
  have "\<not> isMine (g ! r ! c)" if "(r, c) \<in> set ds" for r c
  proof -
    from that assms(3) have "r < rows config" "c < cols config"
      by (auto simp: drawsInRange_def list_all_iff)
    then show ?thesis
      using assms(1) by (intro mineTotal_0_nth[OF assms(2)]) (simp_all add: hasDims_length hasDims_nth)
  qed
  then show ?thesis by (auto simp: fresh_def inZone_def)
qed

text \<open>The clicked cell as the first phase leaves it: still revealable.\<close>

lemma firstPhase_cell:
  assumes wf: "wfGame s" and st: "status s \<noteq> Won" "status s \<noteq> Lost"
    and x: "cellAt (grid s) (int r) (int c) = Some x" "\<not> isRevealed x" "\<not> isFlagged x"
    and fp: "firstPhase draws s r c = Some (cur, s1)"
  obtains y where "cellAt cur (int r) (int c) = Some y" "\<not> isRevealed y" "\<not> isFlagged y"
    "status s = Idle \<longrightarrow> \<not> isMine y \<and> neighborMines y = 0"
proof -
  from cellsRel_cellAt[OF firstPhase_wf(7)[OF wf st fp] x(1)] obtain y where
    y: "cellAt cur (int r) (int c) = Some y" and p: "placed r c (nat (int r)) (nat (int c)) x y"
    by blast
  from placed_fields[OF p] x(2,3) have f: "\<not> isRevealed y" "\<not> isFlagged y" by simp_all
  have "\<not> isMine y \<and> neighborMines y = 0" if "status s = Idle"
  proof -
    from fp that have "placeMines (difficulty s) (grid s) r c draws = Some cur"
      by (auto simp: firstPhase_def)
    from anchor_zero[OF wf that this y] show ?thesis by simp
  qed
  with y f show ?thesis by (intro that[of y]) simp_all
qed

lemma revealCell_reveals:
  assumes wf: "wfGame s" and st: "status s \<noteq> Won" "status s \<noteq> Lost"
    and x: "cellAt (grid s) (int r) (int c) = Some x" "\<not> isRevealed x" "\<not> isFlagged x"
    and rc: "revealCell draws s r c = Some s'"
  shows "\<exists>y. cellAt (grid s') (int r) (int c) = Some y \<and> isRevealed y"
  using wf rc
proof (cases rule: revealCell_cases)
  case same
  with st x show ?thesis by auto
next
  case (run x' cur s1 newGrid s2)
  from firstPhase_cell[OF wf st x run(6)] obtain y where
    y: "cellAt cur (int r) (int c) = Some y" "\<not> isRevealed y" "\<not> isFlagged y" by blast
  then have "revealable cur (int r) (int c)" by (simp add: revealable_iff)
  from shown_now_revealed[OF fill_shown(1)[OF run(8)] this fill_settles[OF run(8)]]
  show ?thesis by (simp add: revealedSet_def run(9))
qed

lemma setCell_twice:
  assumes "r < length g" "c < length (g ! r)"
  shows "setCell (setCell g r c y) r c (g ! r ! c) = g"
  using assms by (simp add: setCell_def list_update_same_conv)

text \<open>
  The draws are enough for a placement anchored at \<open>(r, c)\<close>: they are on the board and hold
  \<open>mines\<close> different cells outside the block around the anchor.
\<close>

definition drawsSuffice :: "GameConfig \<Rightarrow> nat \<Rightarrow> nat \<Rightarrow> (nat \<times> nat) list \<Rightarrow> bool" where
  "drawsSuffice config r c draws \<longleftrightarrow>
     drawsInRange config draws \<and>
     mines config \<le> card {(r', c'). (r', c') \<in> set draws \<and>
                               \<not> (\<bar>int r' - int r\<bar> \<le> 1 \<and> \<bar>int c' - int c\<bar> \<le> 1)}"

lemma firstPhase_returns:
  assumes wf: "wfGame s"
    and dr: "status s = Idle \<longrightarrow> drawsSuffice (DIFFICULTIES (difficulty s)) r c draws"
  shows "\<exists>cur s1. firstPhase draws s r c = Some (cur, s1)"
proof (cases "status s = Idle")
  case True
  have hd: "hasDims (DIFFICULTIES (difficulty s)) (grid s)" and mt: "mineTotal (grid s) = 0"
    using wf True by (simp_all add: wfGame_def)
  from dr True have a: "drawsInRange (DIFFICULTIES (difficulty s)) draws"
    and b: "mines (DIFFICULTIES (difficulty s))
              \<le> card {(r', c'). (r', c') \<in> set draws \<and>
                          \<not> (\<bar>int r' - int r\<bar> \<le> 1 \<and> \<bar>int c' - int c\<bar> \<le> 1)}"
    by (simp_all add: drawsSuffice_def)
  from b have "mines (DIFFICULTIES (difficulty s)) \<le> card (fresh r c (grid s) draws)"
    by (simp add: fresh_unmined[OF hd mt a])
  from placeMines_returns[OF hd a this] obtain cur where
    "placeMines (difficulty s) (grid s) r c draws = Some cur" by blast
  with True show ?thesis by (simp add: firstPhase_def)
next
  case False
  then show ?thesis by (simp add: firstPhase_def)
qed

lemma revealCell_returns:
  assumes wf: "wfGame s" and st: "status s \<noteq> Won" "status s \<noteq> Lost"
    and x: "cellAt (grid s) (int r) (int c) = Some x" "\<not> isRevealed x" "\<not> isFlagged x"
    and dr: "status s = Idle \<longrightarrow> drawsSuffice (DIFFICULTIES (difficulty s)) r c draws"
  shows "\<exists>s'. revealCell draws s r c = Some s'"
proof -
  from firstPhase_returns[OF wf dr] obtain cur s1 where
    fp: "firstPhase draws s r c = Some (cur, s1)" by blast
  from revealCell_run[OF wf st x fp] show ?thesis by blast
qed

lemma cascade_revealable: "(r, c) \<in> cascade g rw cl \<Longrightarrow> revealable g r c"
  by (induction rule: cascade.induct) simp_all

text \<open>A fill that meets no mine leaves every flagged cell as it was.\<close>

lemma fill_keeps_flagged:
  assumes fl: "fill g s rw cl g' s'" and sf: "safe g"
    and nm: "\<forall>x. cellAt g rw cl = Some x \<longrightarrow> \<not> isMine x"
    and y: "cellAt g r c = Some y" "isFlagged y"
  shows "cellAt g' r c = Some y"
proof -
  note sh = fill_shown(1)[OF fl]
  from shown_cellAt_fwd[OF sh y(1)] obtain y' where
    y': "cellAt g' r c = Some y'" "shown (nat r) (nat c) y y'" .
  have "\<not> revealable g r c" using y by (simp add: revealable_iff)
  then have "(r, c) \<notin> cascade g rw cl" using cascade_revealable by blast
  moreover from fill_sound(1)[OF fl sf nm]
  have "revealedSet g' \<subseteq> revealedSet g \<union> cascade g rw cl" by simp
  ultimately have "(r, c) \<in> revealedSet g' \<longrightarrow> (r, c) \<in> revealedSet g" by blast
  then have "isRevealed y' \<longrightarrow> isRevealed y" using y(1) y'(1) by (simp add: revealedSet_def)
  with shown_fields[OF y'(2)] have "isRevealed y' = isRevealed y" by blast
  with y'(2) have "y' = y" by (simp add: shown_def)
  with y'(1) show ?thesis by simp
qed

text \<open>
  C6. The first reveal of a game, from status idle on a revealable cell. Mines are placed
  anchored at the clicked cell: the board becomes the board \<open>placeMines\<close> returns for the
  clicked cell as anchor with cells revealed, it holds exactly \<open>mines\<close> mines, and no cell of
  the block around the click is a mine. The next status is playing or won, never lost; the
  clicked cell is revealed and is no mine. The reveal returns once the draws, all on the
  board, hold \<open>mines\<close> different cells outside the block around the click.
\<close>

theorem first_reveal_never_loses:
  assumes "wfGame s" and "status s = Idle"
    and "cellAt (grid s) (int r) (int c) = Some x" and "\<not> isRevealed x" and "\<not> isFlagged x"
  shows "(\<forall>s'. revealCell draws s r c = Some s' \<longrightarrow>
            (\<exists>cur. placeMines (difficulty s) (grid s) r c draws = Some cur \<and>
                   cellsRel shown cur (grid s')) \<and>
            mineTotal (grid s') = mines (DIFFICULTIES (difficulty s)) \<and>
            (\<forall>dr dc y. (dr, dc) \<in> set offsets \<longrightarrow>
                 cellAt (grid s') (int r + dr) (int c + dc) = Some y \<longrightarrow> \<not> isMine y) \<and>
            (status s' = Playing \<or> status s' = Won) \<and>
            (\<exists>y. cellAt (grid s') (int r) (int c) = Some y \<and> isRevealed y \<and> \<not> isMine y)) \<and>
         (drawsInRange (DIFFICULTIES (difficulty s)) draws \<and>
          mines (DIFFICULTIES (difficulty s))
            \<le> card {(r', c'). (r', c') \<in> set draws \<and>
                        \<not> (\<bar>int r' - int r\<bar> \<le> 1 \<and> \<bar>int c' - int c\<bar> \<le> 1)} \<longrightarrow>
          (\<exists>s'. revealCell draws s r c = Some s'))"
proof (intro conjI allI impI)
  have st: "status s \<noteq> Won" "status s \<noteq> Lost" using assms(2) by simp_all
  fix s' assume rc: "revealCell draws s r c = Some s'"
  from assms(1) rc
  have "(\<exists>cur. placeMines (difficulty s) (grid s) r c draws = Some cur \<and>
                   cellsRel shown cur (grid s')) \<and>
            mineTotal (grid s') = mines (DIFFICULTIES (difficulty s)) \<and>
            (\<forall>dr dc y. (dr, dc) \<in> set offsets \<longrightarrow>
                 cellAt (grid s') (int r + dr) (int c + dc) = Some y \<longrightarrow> \<not> isMine y) \<and>
            (status s' = Playing \<or> status s' = Won) \<and>
            (\<exists>y. cellAt (grid s') (int r) (int c) = Some y \<and> isRevealed y \<and> \<not> isMine y)"
  proof (cases rule: revealCell_cases)
    case same
    with assms(2-5) show ?thesis by auto
  next
    case (run x' cur s1 newGrid s2)
    note fw = firstPhase_wf[OF assms(1) run(1,2,6)]
    from run(6) assms(2) have pm: "placeMines (difficulty s) (grid s) r c draws = Some cur"
      by (auto simp: firstPhase_def)
    from firstPhase_cell[OF assms(1) st assms(3-5) run(6)] assms(2) obtain y where
      y: "cellAt cur (int r) (int c) = Some y" "\<not> isMine y" by blast
    note sh = fill_shown(1)[OF run(8)]
    from fill_sound(1)[OF run(8) countsExact_safe[OF fw(2)]] y
    have s2: "s2 = s1" by simp
    from revealCell_reveals[OF assms(1) st assms(3-5) rc] obtain y' where
      y': "cellAt (grid s') (int r) (int c) = Some y'" "isRevealed y'" by blast
    from shown_cellAt_fwd[OF sh y(1)] y' y(2) have nm': "\<not> isMine y'"
      by (auto simp: run(9) dest: shown_fields)
    have mt: "mineTotal newGrid = mines (DIFFICULTIES (difficulty s))"
      using shown_keeps(1)[OF sh] fw(3) by simp
    have zf: "\<not> isMine z"
      if "(dr, dc) \<in> set offsets" "cellAt newGrid (int r + dr) (int c + dc) = Some z" for dr dc z
    proof -
      from shown_cellAt_bwd[OF sh that(2)] obtain z0 where
        z0: "cellAt cur (int r + dr) (int c + dc) = Some z0"
          "shown (nat (int r + dr)) (nat (int c + dc)) z0 z" .
      from zone_free[OF assms(1,2) pm that(1) z0(1)] shown_fields[OF z0(2)] show ?thesis by simp
    qed
    from y' nm' pm sh s2 fw(4) mt zf show ?thesis by (auto simp: run(9))
  qed
  then show "\<exists>cur. placeMines (difficulty s) (grid s) r c draws = Some cur \<and>
                   cellsRel shown cur (grid s')"
    "mineTotal (grid s') = mines (DIFFICULTIES (difficulty s))"
    "status s' = Playing \<or> status s' = Won"
    "\<exists>y. cellAt (grid s') (int r) (int c) = Some y \<and> isRevealed y \<and> \<not> isMine y"
    and "\<And>dr dc y. (dr, dc) \<in> set offsets \<Longrightarrow>
           cellAt (grid s') (int r + dr) (int c + dc) = Some y \<Longrightarrow> \<not> isMine y"
    by blast+
next
  have st: "status s \<noteq> Won" "status s \<noteq> Lost" using assms(2) by simp_all
  assume "drawsInRange (DIFFICULTIES (difficulty s)) draws \<and>
          mines (DIFFICULTIES (difficulty s))
            \<le> card {(r', c'). (r', c') \<in> set draws \<and>
                        \<not> (\<bar>int r' - int r\<bar> \<le> 1 \<and> \<bar>int c' - int c\<bar> \<le> 1)}"
  then have "drawsSuffice (DIFFICULTIES (difficulty s)) r c draws" by (simp add: drawsSuffice_def)
  then show "\<exists>s'. revealCell draws s r c = Some s'"
    by (intro revealCell_returns[OF assms(1) st assms(3-5)]) simp
qed

text \<open>
  C5. A reveal that is not stopped at the first line. When it hits no mine (the clicked cell
  is no mine), the next status is won exactly when the number of unrevealed cells of the
  resulting board equals the mine count of the difficulty, and playing otherwise; the
  resulting board is the board the fill has left, the test changes no cell. The reveal
  returns: always from status playing, and from status idle once the draws are enough for
  the placement.
\<close>

theorem win_check_counts_unrevealed:
  assumes "wfGame s" and "status s \<noteq> Won" and "status s \<noteq> Lost"
    and "cellAt (grid s) (int r) (int c) = Some x" and "\<not> isRevealed x" and "\<not> isFlagged x"
  shows "(\<forall>s' y. revealCell draws s r c = Some s' \<longrightarrow>
            cellAt (grid s') (int r) (int c) = Some y \<longrightarrow> \<not> isMine y \<longrightarrow>
            (status s' = Won \<longleftrightarrow>
               unrevealedCount (grid s') = mines (DIFFICULTIES (difficulty s))) \<and>
            (status s' \<noteq> Won \<longrightarrow> status s' = Playing) \<and>
            (\<exists>cur s1. firstPhase draws s r c = Some (cur, s1) \<and>
                      reveal cur s1 (int r) (int c) = Some (grid s', s1))) \<and>
         ((status s = Idle \<longrightarrow> drawsSuffice (DIFFICULTIES (difficulty s)) r c draws) \<longrightarrow>
          (\<exists>s'. revealCell draws s r c = Some s'))"
proof (intro conjI allI impI)
  fix s' y
  assume rc: "revealCell draws s r c = Some s'"
    and y: "cellAt (grid s') (int r) (int c) = Some y" and nm: "\<not> isMine y"
  from assms(1) rc
  have "(status s' = Won \<longleftrightarrow> unrevealedCount (grid s') = mines (DIFFICULTIES (difficulty s))) \<and>
        (status s' \<noteq> Won \<longrightarrow> status s' = Playing) \<and>
        (\<exists>cur s1. firstPhase draws s r c = Some (cur, s1) \<and>
                  reveal cur s1 (int r) (int c) = Some (grid s', s1))"
  proof (cases rule: revealCell_cases)
    case same
    with assms(2-6) show ?thesis by auto
  next
    case (run x' cur s1 newGrid s2)
    note fw = firstPhase_wf[OF assms(1) run(1,2,6)]
    note sh = fill_shown(1)[OF run(8)]
    from y have yn: "cellAt newGrid (int r) (int c) = Some y" by (simp add: run(9))
    from shown_cellAt_bwd[OF sh yn] obtain y0 where
      y0: "cellAt cur (int r) (int c) = Some y0" "shown (nat (int r)) (nat (int c)) y0 y" .
    from shown_fields[OF y0(2)] nm have "\<not> isMine y0" by simp
    with fill_sound(1)[OF run(8) countsExact_safe[OF fw(2)]] y0(1)
    have s2: "s2 = s1" by simp
    with fw(4) run(6,7) show ?thesis by (auto simp: run(9))
  qed
  then show "status s' = Won \<longleftrightarrow> unrevealedCount (grid s') = mines (DIFFICULTIES (difficulty s))"
    "status s' \<noteq> Won \<Longrightarrow> status s' = Playing"
    "\<exists>cur s1. firstPhase draws s r c = Some (cur, s1) \<and>
               reveal cur s1 (int r) (int c) = Some (grid s', s1)"
    by blast+
next
  assume "status s = Idle \<longrightarrow> drawsSuffice (DIFFICULTIES (difficulty s)) r c draws"
  then show "\<exists>s'. revealCell draws s r c = Some s'"
    by (rule revealCell_returns[OF assms(1-6)])
qed

text \<open>
  C7. \<open>toggleFlag\<close> changes nothing when the status is won or lost or the cell is revealed.
  Otherwise it changes the \<open>isFlagged\<close> field of the target cell and no other cell, and the
  mine counter goes down by 1 when the cell becomes flagged and up by 1 when it becomes
  unflagged (an integer, no lower bound). \<open>revealCell\<close> leaves the state as it is while the
  cell is flagged; toggling again gives the state before back, and a reveal of the
  unflagged cell returns (from status idle once the draws are enough for the placement) and
  reveals the cell.
\<close>

theorem toggleFlag_flips_and_blocks:
  assumes "wfGame s"
  shows "(status s = Won \<or> status s = Lost \<longrightarrow> toggleFlag s r c = Some s) \<and>
         (\<forall>x. cellAt (grid s) (int r) (int c) = Some x \<and> isRevealed x \<longrightarrow>
              toggleFlag s r c = Some s) \<and>
         (\<forall>x. status s \<noteq> Won \<and> status s \<noteq> Lost \<and>
              cellAt (grid s) (int r) (int c) = Some x \<and> \<not> isRevealed x \<longrightarrow>
           (\<exists>s'. toggleFlag s r c = Some s' \<and>
              cellAt (grid s') (int r) (int c) = Some (x\<lparr>isFlagged := \<not> isFlagged x\<rparr>) \<and>
              (\<forall>r' c'. (r', c') \<noteq> (int r, int c) \<longrightarrow>
                   cellAt (grid s') r' c' = cellAt (grid s) r' c') \<and>
              mineCount s' = (if isFlagged x then mineCount s + 1 else mineCount s - 1) \<and>
              s' = s\<lparr>grid := grid s', mineCount := mineCount s'\<rparr> \<and>
              toggleFlag s' r c = Some s \<and>
              (\<not> isFlagged x \<longrightarrow> revealCell draws s' r c = Some s') \<and>
              (isFlagged x \<longrightarrow>
                 revealCell draws s r c = Some s \<and>
                 (\<forall>s''. revealCell draws s' r c = Some s'' \<longrightarrow>
                    (\<exists>y. cellAt (grid s'') (int r) (int c) = Some y \<and> isRevealed y)) \<and>
                 ((status s = Idle \<longrightarrow> drawsSuffice (DIFFICULTIES (difficulty s)) r c draws) \<longrightarrow>
                    (\<exists>s''. revealCell draws s' r c = Some s'' \<and>
                       (\<exists>y. cellAt (grid s'') (int r) (int c) = Some y \<and> isRevealed y))))))"
proof (intro conjI allI impI)
  assume "status s = Won \<or> status s = Lost"
  then show "toggleFlag s r c = Some s" by (simp add: toggleFlag_def)
next
  fix x assume "cellAt (grid s) (int r) (int c) = Some x \<and> isRevealed x"
  then show "toggleFlag s r c = Some s" by (simp add: toggleFlag_def)
next
  fix x
  assume a: "status s \<noteq> Won \<and> status s \<noteq> Lost \<and>
             cellAt (grid s) (int r) (int c) = Some x \<and> \<not> isRevealed x"
  then have st: "status s \<noteq> Won" "status s \<noteq> Lost"
    and x: "cellAt (grid s) (int r) (int c) = Some x" and nr: "\<not> isRevealed x" by simp_all
  from x have b: "r < length (grid s)" "c < length (grid s ! r)" and xe: "x = grid s ! r ! c"
    by (simp_all add: cellAt_Some_iff)
  let ?x' = "x\<lparr>isFlagged := \<not> isFlagged x\<rparr>"
  let ?g' = "setCell (grid s) r c ?x'"
  let ?s' = "s\<lparr>grid := ?g', mineCount := (if isFlagged x then mineCount s + 1 else mineCount s - 1)\<rparr>"
  have tf: "toggleFlag s r c = Some ?s'"
    using st x nr by (cases "isFlagged x") (simp_all add: toggleFlag_def Let_def)
  have at: "cellAt ?g' r' c' = (if r' = int r \<and> c' = int c then Some ?x' else cellAt (grid s) r' c')"
    for r' c'
    using cellAt_mark[OF x, of ?x' r' c'] by simp
  have x': "cellAt (grid ?s') (int r) (int c) = Some ?x'" by (simp add: at)
  have oth: "\<forall>r' c'. (r', c') \<noteq> (int r, int c) \<longrightarrow> cellAt (grid ?s') r' c' = cellAt (grid s) r' c'"
    by (simp add: at)
  have again: "toggleFlag ?s' r c = Some s"
  proof -
    have g: "setCell ?g' r c x = grid s" using setCell_twice[OF b, of ?x'] xe by simp
    have xx: "?x'\<lparr>isFlagged := \<not> isFlagged ?x'\<rparr> = x" by (cases x) simp
    have "toggleFlag ?s' r c =
            Some (?s'\<lparr>grid := setCell ?g' r c (?x'\<lparr>isFlagged := \<not> isFlagged ?x'\<rparr>),
                       mineCount := (if \<not> isFlagged ?x' then mineCount ?s' - 1
                                     else mineCount ?s' + 1)\<rparr>)"
      using st x' nr by (simp add: toggleFlag_def Let_def)
    also have "\<dots> = Some s" unfolding xx g by (cases "isFlagged x") simp_all
    finally show ?thesis .
  qed
  have wf': "wfGame ?s'" by (rule wfGame_toggleFlag[OF assms tf])
  have blocked': "revealCell draws ?s' r c = Some ?s'" if "\<not> isFlagged x"
    by (rule revealCell_blocked[OF x']) (use that in simp)
  have blocked: "revealCell draws s r c = Some s" if "isFlagged x"
    by (rule revealCell_blocked[OF x]) (use that in simp)
  have opens: "\<exists>y. cellAt (grid s'') (int r) (int c) = Some y \<and> isRevealed y"
    if "isFlagged x" "revealCell draws ?s' r c = Some s''" for s''
    by (rule revealCell_reveals[OF wf' _ _ x' _ _ that(2)]) (use st nr that(1) in simp_all)
  have returns: "\<exists>s''. revealCell draws ?s' r c = Some s'' \<and>
                       (\<exists>y. cellAt (grid s'') (int r) (int c) = Some y \<and> isRevealed y)"
    if f: "isFlagged x"
      and d: "status s = Idle \<longrightarrow> drawsSuffice (DIFFICULTIES (difficulty s)) r c draws"
  proof -
    have "\<exists>s''. revealCell draws ?s' r c = Some s''"
      by (rule revealCell_returns[OF wf' _ _ x']) (use st nr f d in simp_all)
    then obtain s'' where "revealCell draws ?s' r c = Some s''" by blast
    with opens[OF f this] show ?thesis by blast
  qed
  show "\<exists>s'. toggleFlag s r c = Some s' \<and>
              cellAt (grid s') (int r) (int c) = Some (x\<lparr>isFlagged := \<not> isFlagged x\<rparr>) \<and>
              (\<forall>r' c'. (r', c') \<noteq> (int r, int c) \<longrightarrow>
                   cellAt (grid s') r' c' = cellAt (grid s) r' c') \<and>
              mineCount s' = (if isFlagged x then mineCount s + 1 else mineCount s - 1) \<and>
              s' = s\<lparr>grid := grid s', mineCount := mineCount s'\<rparr> \<and>
              toggleFlag s' r c = Some s \<and>
              (\<not> isFlagged x \<longrightarrow> revealCell draws s' r c = Some s') \<and>
              (isFlagged x \<longrightarrow>
                 revealCell draws s r c = Some s \<and>
                 (\<forall>s''. revealCell draws s' r c = Some s'' \<longrightarrow>
                    (\<exists>y. cellAt (grid s'') (int r) (int c) = Some y \<and> isRevealed y)) \<and>
                 ((status s = Idle \<longrightarrow> drawsSuffice (DIFFICULTIES (difficulty s)) r c draws) \<longrightarrow>
                    (\<exists>s''. revealCell draws s' r c = Some s'' \<and>
                       (\<exists>y. cellAt (grid s'') (int r) (int c) = Some y \<and> isRevealed y))))"
  proof (rule exI[of _ ?s'], intro conjI impI allI)
    show "toggleFlag s r c = Some ?s'" by (rule tf)
    show "cellAt (grid ?s') (int r) (int c) = Some ?x'" by (rule x')
    show "mineCount ?s' = (if isFlagged x then mineCount s + 1 else mineCount s - 1)" by simp
    show "?s' = s\<lparr>grid := grid ?s', mineCount := mineCount ?s'\<rparr>" by simp
    show "toggleFlag ?s' r c = Some s" by (rule again)
  next
    fix r' c' assume "(r', c') \<noteq> (int r, int c)"
    with oth show "cellAt (grid ?s') r' c' = cellAt (grid s) r' c'" by blast
  next
    assume "\<not> isFlagged x"
    then show "revealCell draws ?s' r c = Some ?s'" by (rule blocked')
  next
    assume "isFlagged x"
    then show "revealCell draws s r c = Some s" by (rule blocked)
  next
    fix s'' assume "isFlagged x" "revealCell draws ?s' r c = Some s''"
    then show "\<exists>y. cellAt (grid s'') (int r) (int c) = Some y \<and> isRevealed y" by (rule opens)
  next
    assume "isFlagged x"
      "status s = Idle \<longrightarrow> drawsSuffice (DIFFICULTIES (difficulty s)) r c draws"
    then show "\<exists>s''. revealCell draws ?s' r c = Some s'' \<and>
                       (\<exists>y. cellAt (grid s'') (int r) (int c) = Some y \<and> isRevealed y)"
      by (rule returns)
  qed
qed

text \<open>
  C9, as the code has it. After the first reveal of a game the clicked cell is no mine,
  counts 0 and is revealed, and every cell of the 3 by 3 block around it that is on the
  board and not flagged is revealed. A cell of the block that was flagged before the first
  reveal is still flagged and as revealed as it was: flagged and unrevealed before, it stays
  unrevealed. The reveal returns once the draws are enough for the placement.
\<close>

theorem first_reveal_opens_block:
  assumes "wfGame s" and "status s = Idle"
    and "cellAt (grid s) (int r) (int c) = Some x" and "\<not> isRevealed x" and "\<not> isFlagged x"
  shows "(\<forall>s'. revealCell draws s r c = Some s' \<longrightarrow>
            (\<exists>y. cellAt (grid s') (int r) (int c) = Some y \<and> \<not> isMine y \<and>
                 neighborMines y = 0 \<and> isRevealed y) \<and>
            (\<forall>dr dc y. (dr, dc) \<in> set offsets \<longrightarrow>
                 cellAt (grid s') (int r + dr) (int c + dc) = Some y \<longrightarrow> \<not> isFlagged y \<longrightarrow>
                 isRevealed y) \<and>
            (\<forall>dr dc y0. (dr, dc) \<in> set offsets \<longrightarrow>
                 cellAt (grid s) (int r + dr) (int c + dc) = Some y0 \<longrightarrow> isFlagged y0 \<longrightarrow>
                 (\<exists>y. cellAt (grid s') (int r + dr) (int c + dc) = Some y \<and> isFlagged y \<and>
                      isRevealed y = isRevealed y0))) \<and>
         (drawsSuffice (DIFFICULTIES (difficulty s)) r c draws \<longrightarrow>
          (\<exists>s'. revealCell draws s r c = Some s'))"
proof (intro conjI allI impI)
  have st: "status s \<noteq> Won" "status s \<noteq> Lost" using assms(2) by simp_all
  fix s' assume rc: "revealCell draws s r c = Some s'"
  from assms(1) rc
  have "(\<exists>y. cellAt (grid s') (int r) (int c) = Some y \<and> \<not> isMine y \<and>
                 neighborMines y = 0 \<and> isRevealed y) \<and>
            (\<forall>dr dc y. (dr, dc) \<in> set offsets \<longrightarrow>
                 cellAt (grid s') (int r + dr) (int c + dc) = Some y \<longrightarrow> \<not> isFlagged y \<longrightarrow>
                 isRevealed y) \<and>
            (\<forall>dr dc y0. (dr, dc) \<in> set offsets \<longrightarrow>
                 cellAt (grid s) (int r + dr) (int c + dc) = Some y0 \<longrightarrow> isFlagged y0 \<longrightarrow>
                 (\<exists>y. cellAt (grid s') (int r + dr) (int c + dc) = Some y \<and> isFlagged y \<and>
                      isRevealed y = isRevealed y0))"
  proof (cases rule: revealCell_cases)
    case same
    with assms(2-5) show ?thesis by auto
  next
    case (run x' cur s1 newGrid s2)
    note fw = firstPhase_wf[OF assms(1) run(1,2,6)]
    from firstPhase_cell[OF assms(1) st assms(3-5) run(6)] assms(2) obtain y0 where
      y0: "cellAt cur (int r) (int c) = Some y0" "\<not> isRevealed y0" "\<not> isFlagged y0"
        "\<not> isMine y0" "neighborMines y0 = 0" by blast
    then have rv: "revealable cur (int r) (int c)" by (simp add: revealable_iff)
    let ?g1 = "setCell cur (nat (int r)) (nat (int c)) (y0\<lparr>isRevealed := True\<rparr>)"
    have fa: "fillAround ?g1 s1 (int r) (int c) offsets newGrid s2"
      using run(8)
    proof (cases rule: fill.cases)
      case skip
      with rv show ?thesis by simp
    next
      case (mine z)
      with y0 show ?thesis by simp
    next
      case (number z)
      with y0 show ?thesis by simp
    next
      case (zero z)
      with y0(1) show ?thesis by simp
    qed
    have blk: "isRevealed y"
      if "(dr, dc) \<in> set offsets" "cellAt newGrid (int r + dr) (int c + dc) = Some y"
        "\<not> isFlagged y" for dr dc y
      using fillAround_settles[OF fa that(1)] that(2,3) by (simp add: revealable_iff)
    note sh = fill_shown(1)[OF run(8)]
    from shown_cellAt_fwd[OF sh y0(1)] obtain y where
      y: "cellAt newGrid (int r) (int c) = Some y" "shown (nat (int r)) (nat (int c)) y0 y" .
    from shown_fields[OF y(2)] y0 have f: "\<not> isMine y" "neighborMines y = 0" "\<not> isFlagged y"
      by simp_all
    have "(0, 0) \<in> set offsets" by (simp add: set_offsets)
    from blk[OF this] y(1) f(3) have ry: "isRevealed y" by simp
    have nm: "\<forall>z. cellAt cur (int r) (int c) = Some z \<longrightarrow> \<not> isMine z" using y0(1,4) by simp
    have kept: "\<exists>y. cellAt newGrid rw cl = Some y \<and> isFlagged y \<and> isRevealed y = isRevealed z0"
      if "cellAt (grid s) rw cl = Some z0" "isFlagged z0" for rw cl z0
    proof -
      from cellsRel_cellAt[OF fw(7) that(1)] obtain z1 where
        z1: "cellAt cur rw cl = Some z1" and p: "placed r c (nat rw) (nat cl) z0 z1" by blast
      from placed_fields[OF p] that(2) have f1: "isFlagged z1" "isRevealed z1 = isRevealed z0"
        by simp_all
      from fill_keeps_flagged[OF run(8) countsExact_safe[OF fw(2)] nm z1 f1(1)] f1
      show ?thesis by simp
    qed
    from y(1) f ry blk kept show ?thesis by (auto simp: run(9))
  qed
  then show "\<exists>y. cellAt (grid s') (int r) (int c) = Some y \<and> \<not> isMine y \<and>
                 neighborMines y = 0 \<and> isRevealed y"
    and "\<And>dr dc y. (dr, dc) \<in> set offsets \<Longrightarrow>
           cellAt (grid s') (int r + dr) (int c + dc) = Some y \<Longrightarrow> \<not> isFlagged y \<Longrightarrow>
           isRevealed y"
    and "\<And>dr dc y0. (dr, dc) \<in> set offsets \<Longrightarrow>
           cellAt (grid s) (int r + dr) (int c + dc) = Some y0 \<Longrightarrow> isFlagged y0 \<Longrightarrow>
           \<exists>y. cellAt (grid s') (int r + dr) (int c + dc) = Some y \<and> isFlagged y \<and>
               isRevealed y = isRevealed y0"
    by blast+
next
  have st: "status s \<noteq> Won" "status s \<noteq> Lost" using assms(2) by simp_all
  assume "drawsSuffice (DIFFICULTIES (difficulty s)) r c draws"
  then show "\<exists>s'. revealCell draws s r c = Some s'"
    by (intro revealCell_returns[OF assms(1) st assms(3-5)]) simp
qed

section \<open>The example game, evaluated\<close>

lemma newGame_fields: "status newGame = Idle" "difficulty newGame = Beginner"
  by (simp_all add: newGame_def mounted_def startGame_def Let_def)

lemma newGame_wf: "wfGame newGame"
  unfolding newGame_def by (rule wfGame_startGame)

lemma newGame_dims: "hasDims (DIFFICULTIES Beginner) (grid newGame)"
  using newGame_wf by (simp add: wfGame_def newGame_fields)


lemma newGame_cell:
  "r < 9 \<Longrightarrow> c < 9 \<Longrightarrow>
     cellAt (grid newGame) (int r) (int c) =
       Some \<lparr>row = r, col = c, isMine = False, isRevealed = False, isFlagged = False,
             neighborMines = 0\<rparr>"
  using newGame_dims
  by (simp add: cellAt_Some_iff hasDims_length hasDims_nth)
     (simp add: newGame_def mounted_def startGame_def Let_def initGrid_nth)

lemma cornerDraws_range: "drawsInRange (DIFFICULTIES Beginner) cornerDraws"
  by (simp add: drawsInRange_def cornerDraws_def)

lemma cornerDraws_enough:
  "mines (DIFFICULTIES Beginner)
     \<le> card {(r, c). (r, c) \<in> set cornerDraws \<and>
                 \<not> (\<bar>int r - int 8\<bar> \<le> 1 \<and> \<bar>int c - int 0\<bar> \<le> 1)}"
  by code_simp

text \<open>The board of the example game once the mines are placed, anchored at \<open>(8, 0)\<close>.\<close>

definition minedBoard :: grid where
  "minedBoard = the (placeMines Beginner (grid newGame) 8 0 cornerDraws)"

lemma minedBoard_eval:
  "(case placeMines Beginner (grid newGame) 8 0 cornerDraws of
      None \<Rightarrow> False
    | Some g \<Rightarrow>
        cellAt g 8 0 = Some (g ! 8 ! 0) \<and> \<not> isMine (g ! 8 ! 0) \<and> \<not> isRevealed (g ! 8 ! 0) \<and>
        \<not> isFlagged (g ! 8 ! 0) \<and> neighborMines (g ! 8 ! 0) = 0 \<and>
        cellAt g 3 4 = Some (g ! 3 ! 4) \<and> isMine (g ! 3 ! 4) \<and>
        cellAt g 7 1 = Some (g ! 7 ! 1) \<and> \<not> isMine (g ! 2 ! 5))"
  by code_simp

lemma minedBoard_placed: "placeMines Beginner (grid newGame) 8 0 cornerDraws = Some minedBoard"
  using minedBoard_eval by (simp add: minedBoard_def split: option.splits)

lemma minedBoard_cells:
  "cellAt minedBoard 8 0 = Some (minedBoard ! 8 ! 0)" "\<not> isMine (minedBoard ! 8 ! 0)"
  "\<not> isRevealed (minedBoard ! 8 ! 0)" "\<not> isFlagged (minedBoard ! 8 ! 0)"
  "neighborMines (minedBoard ! 8 ! 0) = 0"
  "cellAt minedBoard 3 4 = Some (minedBoard ! 3 ! 4)" "isMine (minedBoard ! 3 ! 4)"
  "cellAt minedBoard 7 1 = Some (minedBoard ! 7 ! 1)" "\<not> isMine (minedBoard ! 2 ! 5)"
  using minedBoard_eval unfolding minedBoard_placed by simp_all

lemma minedBoard_wf: "hasDims (DIFFICULTIES Beginner) minedBoard" "countsExact minedBoard"
  using placeMines_result(1,4)[OF newGame_dims minedBoard_placed] .

text \<open>
  Two clicks: the first reveal at \<open>(8, 0)\<close>, which leaves the ten mines and the ten other
  cells behind the wall unrevealed, then a click on the mine at \<open>(3, 4)\<close>.
\<close>

definition firstClick :: Game where
  "firstClick = the (revealCell cornerDraws newGame 8 0)"

definition mineClick :: Game where
  "mineClick = the (revealCell [] firstClick 3 4)"

lemma clicks_eval:
  "(case revealCell cornerDraws newGame 8 0 of
      None \<Rightarrow> False
    | Some s \<Rightarrow>
        status s = Playing \<and> unrevealedCount (grid s) = 20 \<and>
        cellAt (grid s) 3 4 = Some (grid s ! 3 ! 4) \<and> isMine (grid s ! 3 ! 4) \<and>
        \<not> isRevealed (grid s ! 3 ! 4) \<and> \<not> isFlagged (grid s ! 3 ! 4) \<and>
        cellAt (grid s) 8 0 = Some (grid s ! 8 ! 0) \<and> \<not> isMine (grid s ! 8 ! 0) \<and>
        cellAt (grid s) 7 1 = Some (grid s ! 7 ! 1) \<and> \<not> isFlagged (grid s ! 7 ! 1) \<and>
        (case revealCell [] s 3 4 of
           None \<Rightarrow> False
         | Some s2 \<Rightarrow>
             status s2 = Won \<and> unrevealedCount (grid s2) = 10 \<and> isRevealed (grid s2 ! 3 ! 4) \<and>
             isRevealed (grid s2 ! 0 ! 8)))"
  by code_simp

lemma firstClick_run: "revealCell cornerDraws newGame 8 0 = Some firstClick"
  using clicks_eval by (simp add: firstClick_def split: option.splits)

lemma firstClick_facts:
  "status firstClick = Playing" "unrevealedCount (grid firstClick) = 20"
  "cellAt (grid firstClick) 3 4 = Some (grid firstClick ! 3 ! 4)" "isMine (grid firstClick ! 3 ! 4)"
  "\<not> isRevealed (grid firstClick ! 3 ! 4)" "\<not> isFlagged (grid firstClick ! 3 ! 4)"
  "cellAt (grid firstClick) 8 0 = Some (grid firstClick ! 8 ! 0)" "\<not> isMine (grid firstClick ! 8 ! 0)"
  "cellAt (grid firstClick) 7 1 = Some (grid firstClick ! 7 ! 1)" "\<not> isFlagged (grid firstClick ! 7 ! 1)"
  "revealCell [] firstClick 3 4 \<noteq> None"
  using clicks_eval unfolding firstClick_run by (simp_all split: option.splits)

lemma mineClick_run: "revealCell [] firstClick 3 4 = Some mineClick"
  using firstClick_facts(11) by (simp add: mineClick_def)

lemma mineClick_facts:
  "status mineClick = Won" "unrevealedCount (grid mineClick) = 10"
  "isRevealed (grid mineClick ! 3 ! 4)" "isRevealed (grid mineClick ! 0 ! 8)"
  using clicks_eval unfolding firstClick_run option.case mineClick_run by simp_all

text \<open>
  Two more clicks after the first: \<open>(0, 6)\<close> opens the cells behind the wall but \<open>(2, 8)\<close>,
  and \<open>(2, 8)\<close> is the last cell that is no mine.
\<close>

definition nearlyDone :: Game where
  "nearlyDone = the (revealCell [] firstClick 0 6)"

definition lastClick :: Game where
  "lastClick = the (revealCell [] nearlyDone 2 8)"

lemma finish_eval:
  "(case revealCell [] firstClick 0 6 of
      None \<Rightarrow> False
    | Some s \<Rightarrow>
        status s = Playing \<and> difficulty s = Beginner \<and>
        cellAt (grid s) 2 8 = Some (grid s ! 2 ! 8) \<and> \<not> isRevealed (grid s ! 2 ! 8) \<and>
        \<not> isFlagged (grid s ! 2 ! 8) \<and>
        (case revealCell [] s 2 8 of
           None \<Rightarrow> False
         | Some s2 \<Rightarrow>
             unrevealedCount (grid s2) = 10 \<and> cellAt (grid s2) 2 8 = Some (grid s2 ! 2 ! 8) \<and>
             \<not> isMine (grid s2 ! 2 ! 8)))"
  by code_simp

lemma nearlyDone_run: "revealCell [] firstClick 0 6 = Some nearlyDone"
  using finish_eval by (simp add: nearlyDone_def split: option.splits)

lemma nearlyDone_facts:
  "status nearlyDone = Playing" "difficulty nearlyDone = Beginner"
  "cellAt (grid nearlyDone) 2 8 = Some (grid nearlyDone ! 2 ! 8)"
  "\<not> isRevealed (grid nearlyDone ! 2 ! 8)" "\<not> isFlagged (grid nearlyDone ! 2 ! 8)"
  "revealCell [] nearlyDone 2 8 \<noteq> None"
  using finish_eval unfolding nearlyDone_run by (simp_all split: option.splits)

lemma lastClick_run: "revealCell [] nearlyDone 2 8 = Some lastClick"
  using nearlyDone_facts(6) by (simp add: lastClick_def)

lemma lastClick_facts:
  "unrevealedCount (grid lastClick) = 10"
  "cellAt (grid lastClick) 2 8 = Some (grid lastClick ! 2 ! 8)" "\<not> isMine (grid lastClick ! 2 ! 8)"
  using finish_eval unfolding nearlyDone_run option.case lastClick_run by simp_all

lemma cornerDraws_enough_flag:
  "mines (DIFFICULTIES Beginner)
     \<le> card {(r, c). (r, c) \<in> set cornerDraws \<and>
                 \<not> (\<bar>int r - int 0\<bar> \<le> 1 \<and> \<bar>int c - int 1\<bar> \<le> 1)}"
  by code_simp

lemma cornerDraws_enough_corner:
  "mines (DIFFICULTIES Beginner)
     \<le> card {(r, c). (r, c) \<in> set cornerDraws \<and>
                 \<not> (\<bar>int r - int 0\<bar> \<le> 1 \<and> \<bar>int c - int 0\<bar> \<le> 1)}"
  by code_simp

lemma cornerDraws_suffice:
  "drawsSuffice (DIFFICULTIES Beginner) 0 1 cornerDraws"
  "drawsSuffice (DIFFICULTIES Beginner) 0 0 cornerDraws"
  unfolding drawsSuffice_def
  by (rule conjI[OF cornerDraws_range cornerDraws_enough_flag],
      rule conjI[OF cornerDraws_range cornerDraws_enough_corner])

subsection \<open>A mine hit that ends as won\<close>

text \<open>
  C3 on the example game. After the first click the status is playing and \<open>(3, 4)\<close> is a mine
  that is neither revealed nor flagged; ten cells that are no mines are unrevealed, as many
  as there are mines. The click on the mine reveals the mines, and the win test that
  follows, which reads the status of the render, sets the status to won.
\<close>

theorem mine_hit_ends_won:
  "revealCell cornerDraws newGame 8 0 = Some firstClick \<and> status firstClick = Playing \<and>
   cellAt (grid firstClick) 3 4 = Some (grid firstClick ! 3 ! 4) \<and>
   isMine (grid firstClick ! 3 ! 4) \<and> \<not> isRevealed (grid firstClick ! 3 ! 4) \<and>
   \<not> isFlagged (grid firstClick ! 3 ! 4) \<and>
   revealCell [] firstClick 3 4 = Some mineClick \<and> isRevealed (grid mineClick ! 3 ! 4) \<and>
   status mineClick = Won"
  using firstClick_run firstClick_facts mineClick_run mineClick_facts by simp

subsection \<open>A flag placed before the first reveal\<close>

text \<open>
  C9 as it is stated fails on the example game: the cell \<open>(0, 1)\<close> is flagged while the
  status is idle, the first reveal is at \<open>(0, 0)\<close>, and \<open>(0, 1)\<close>, a cell of the block around
  the click, is not revealed.
\<close>

definition flaggedStart :: Game where
  "flaggedStart = the (toggleFlag newGame 0 1)"

definition flaggedClick :: Game where
  "flaggedClick = the (revealCell cornerDraws flaggedStart 0 0)"

lemma flagged_eval:
  "(case toggleFlag newGame 0 1 of
      None \<Rightarrow> False
    | Some s \<Rightarrow>
        status s = Idle \<and> difficulty s = Beginner \<and>
        cellAt (grid s) 0 0 = Some (grid s ! 0 ! 0) \<and> \<not> isRevealed (grid s ! 0 ! 0) \<and>
        \<not> isFlagged (grid s ! 0 ! 0) \<and>
        cellAt (grid s) 0 1 = Some (grid s ! 0 ! 1) \<and> isFlagged (grid s ! 0 ! 1) \<and>
        \<not> isRevealed (grid s ! 0 ! 1) \<and>
        (case revealCell cornerDraws s 0 0 of
           None \<Rightarrow> False
         | Some s2 \<Rightarrow>
             cellAt (grid s2) 0 1 = Some (grid s2 ! 0 ! 1) \<and> \<not> isRevealed (grid s2 ! 0 ! 1) \<and>
             isRevealed (grid s2 ! 0 ! 0) \<and>
             cellAt (grid s2) 1 1 = Some (grid s2 ! 1 ! 1) \<and> \<not> isFlagged (grid s2 ! 1 ! 1)))"
  by code_simp

lemma flaggedStart_run: "toggleFlag newGame 0 1 = Some flaggedStart"
  using flagged_eval by (simp add: flaggedStart_def split: option.splits)

lemma flaggedClick_run: "revealCell cornerDraws flaggedStart 0 0 = Some flaggedClick"
  using flagged_eval unfolding flaggedStart_run
  by (simp add: flaggedClick_def split: option.splits)

lemma flaggedStart_facts:
  "status flaggedStart = Idle" "difficulty flaggedStart = Beginner"
  "cellAt (grid flaggedStart) 0 0 = Some (grid flaggedStart ! 0 ! 0)"
  "\<not> isRevealed (grid flaggedStart ! 0 ! 0)" "\<not> isFlagged (grid flaggedStart ! 0 ! 0)"
  "cellAt (grid flaggedStart) 0 1 = Some (grid flaggedStart ! 0 ! 1)"
  "isFlagged (grid flaggedStart ! 0 ! 1)" "\<not> isRevealed (grid flaggedStart ! 0 ! 1)"
  using flagged_eval unfolding flaggedStart_run by (simp_all split: option.splits)

lemma flaggedClick_facts:
  "cellAt (grid flaggedClick) 0 1 = Some (grid flaggedClick ! 0 ! 1)"
  "\<not> isRevealed (grid flaggedClick ! 0 ! 1)" "isRevealed (grid flaggedClick ! 0 ! 0)"
  "cellAt (grid flaggedClick) 1 1 = Some (grid flaggedClick ! 1 ! 1)"
  "\<not> isFlagged (grid flaggedClick ! 1 ! 1)"
  using flagged_eval unfolding flaggedStart_run option.case flaggedClick_run by simp_all

theorem first_reveal_block_counterexample:
  "toggleFlag newGame 0 1 = Some flaggedStart \<and> status flaggedStart = Idle \<and>
   revealCell cornerDraws flaggedStart 0 0 = Some flaggedClick \<and>
   cellAt (grid flaggedClick) 0 1 = Some (grid flaggedClick ! 0 ! 1) \<and>
   \<not> isRevealed (grid flaggedClick ! 0 ! 1)"
  using flaggedStart_run flaggedStart_facts(1) flaggedClick_run flaggedClick_facts(1,2) by simp

subsection \<open>Instances\<close>

theorem startGame_resets_witness:
  "(2::nat) < rows (DIFFICULTIES Expert) \<and> (29::nat) < cols (DIFFICULTIES Expert) \<and>
   grid (startGame \<lparr>difficulty = Expert, grid = [], status = Lost, mineCount = -3, timer = 57,
                    timerRef = True, ticking = True\<rparr>) ! 2 ! 29 =
     \<lparr>row = 2, col = 29, isMine = False, isRevealed = False, isFlagged = False,
      neighborMines = 0\<rparr>"
  using startGame_resets [of "\<lparr>difficulty = Expert, grid = [], status = Lost, mineCount = -3,
                               timer = 57, timerRef = True, ticking = True\<rparr>"]
  by simp


theorem placeMines_neighbour_counts_witness:
  "\<not> isMine (minedBoard ! 2 ! 5) \<and>
   neighborMines (minedBoard ! 2 ! 5) =
     card {(nr, nc). nr < 9 \<and> nc < 9 \<and> (nr, nc) \<noteq> (2, 5) \<and> \<bar>int nr - 2\<bar> \<le> 1 \<and>
                     \<bar>int nc - 5\<bar> \<le> 1 \<and> isMine (minedBoard ! nr ! nc)}"
  using placeMines_neighbour_counts[OF newGame_dims minedBoard_placed] minedBoard_cells(9)
  by simp

theorem cascade_never_hits_mine_witness:
  "\<exists>g'. reveal minedBoard newGame 8 0 = Some (g', newGame) \<and>
         cellAt g' 3 4 = cellAt minedBoard 3 4 \<and> \<not> isMine (minedBoard ! 7 ! 1)"
proof -
  note t = cascade_never_hits_mine[OF minedBoard_wf minedBoard_cells(1,2), of newGame]
  have o: "(-1, 1) \<in> set offsets" by (simp add: set_offsets)
  have y: "cellAt minedBoard (8 + (-1)) (0 + 1) = Some (minedBoard ! 7 ! 1)"
    using minedBoard_cells(8) by simp
  from t minedBoard_cells(5) o y have "\<not> isMine (minedBoard ! 7 ! 1)" by blast
  moreover from t minedBoard_cells(6,7) obtain g' where
    "reveal minedBoard newGame 8 0 = Some (g', newGame)"
    "cellAt g' 3 4 = Some (minedBoard ! 3 ! 4)" by blast
  ultimately show ?thesis using minedBoard_cells(6) by auto
qed

theorem reveal_reveals_cascade_witness:
  "\<exists>g'. reveal minedBoard newGame 8 0 = Some (g', newGame) \<and> cellsRel shown minedBoard g' \<and>
         revealedSet g' = revealedSet minedBoard \<union> cascade minedBoard 8 0"
  using reveal_reveals_cascade[OF minedBoard_wf minedBoard_cells(1,3,4,2), of newGame] .

theorem first_reveal_never_loses_witness:
  "revealCell cornerDraws newGame 8 0 = Some firstClick \<and>
   (status firstClick = Playing \<or> status firstClick = Won) \<and>
   mineTotal (grid firstClick) = 10 \<and> \<not> isMine (grid firstClick ! 7 ! 1)"
proof -
  have x: "cellAt (grid newGame) (int 8) (int 0) =
      Some \<lparr>row = 8, col = 0, isMine = False, isRevealed = False, isFlagged = False,
            neighborMines = 0\<rparr>" by (rule newGame_cell) simp_all
  note t = first_reveal_never_loses[OF newGame_wf newGame_fields(1) x, of cornerDraws]
  from t cornerDraws_range cornerDraws_enough newGame_fields(2) obtain s' where
    s': "revealCell cornerDraws newGame 8 0 = Some s'" by auto
  with firstClick_run have e: "s' = firstClick" by simp
  have o: "(-1, 1) \<in> set offsets" by (simp add: set_offsets)
  have y: "cellAt (grid firstClick) (int 8 + (-1)) (int 0 + 1) = Some (grid firstClick ! 7 ! 1)"
    using firstClick_facts(9) by simp
  from t s' e have "(status firstClick = Playing \<or> status firstClick = Won) \<and>
      mineTotal (grid firstClick) = mines (DIFFICULTIES (difficulty newGame)) \<and>
      (\<forall>dr dc y. (dr, dc) \<in> set offsets \<longrightarrow>
           cellAt (grid firstClick) (int 8 + dr) (int 0 + dc) = Some y \<longrightarrow> \<not> isMine y)"
    by simp
  with o y firstClick_run show ?thesis by (auto simp: newGame_fields)
qed

theorem win_check_counts_unrevealed_witness:
  "status nearlyDone = Playing \<and> revealCell [] nearlyDone 2 8 = Some lastClick \<and>
   unrevealedCount (grid lastClick) = mines (DIFFICULTIES Beginner) \<and> status lastClick = Won"
proof -
  have wf: "wfGame nearlyDone"
    by (rule wfGame_revealCell[OF wfGame_revealCell[OF newGame_wf firstClick_run] nearlyDone_run])
  have st: "status nearlyDone \<noteq> Won" "status nearlyDone \<noteq> Lost"
    by (simp_all add: nearlyDone_facts)
  have x: "cellAt (grid nearlyDone) (int 2) (int 8) = Some (grid nearlyDone ! 2 ! 8)"
    using nearlyDone_facts(3) by simp
  note t = win_check_counts_unrevealed[OF wf st x nearlyDone_facts(4,5), of "[]"]
  from t nearlyDone_facts(1) obtain s' where s': "revealCell [] nearlyDone 2 8 = Some s'" by auto
  with lastClick_run have e: "s' = lastClick" by simp
  have y: "cellAt (grid lastClick) (int 2) (int 8) = Some (grid lastClick ! 2 ! 8)"
    using lastClick_facts(2) by simp
  from t s' e y lastClick_facts(3)
  have "status lastClick = Won \<longleftrightarrow>
          unrevealedCount (grid lastClick) = mines (DIFFICULTIES (difficulty nearlyDone))"
    by blast
  with lastClick_facts(1) nearlyDone_facts(1,2) lastClick_run show ?thesis by simp
qed

theorem toggleFlag_flips_and_blocks_witness:
  "\<exists>s s''. toggleFlag newGame 0 1 = Some s \<and> mineCount s = mineCount newGame - 1 \<and>
           revealCell cornerDraws s 0 1 = Some s \<and> toggleFlag s 0 1 = Some newGame \<and>
           mineCount newGame = mineCount s + 1 \<and>
           revealCell cornerDraws newGame 0 1 = Some s'' \<and>
           (\<exists>y. cellAt (grid s'') 0 1 = Some y \<and> isRevealed y)"
proof -
  let ?x = "\<lparr>row = 0, col = 1, isMine = False, isRevealed = False, isFlagged = False,
             neighborMines = 0\<rparr>"
  have x: "cellAt (grid newGame) (int 0) (int 1) = Some ?x" by (rule newGame_cell) simp_all
  have st: "status newGame \<noteq> Won" "status newGame \<noteq> Lost" by (simp_all add: newGame_fields)
  from toggleFlag_flips_and_blocks[OF newGame_wf, of 0 1 cornerDraws] st x
  obtain s where s: "toggleFlag newGame 0 1 = Some s"
    "cellAt (grid s) (int 0) (int 1) = Some (?x\<lparr>isFlagged := True\<rparr>)"
    "mineCount s = mineCount newGame - 1" "s = newGame\<lparr>grid := grid s, mineCount := mineCount s\<rparr>"
    "toggleFlag s 0 1 = Some newGame" "revealCell cornerDraws s 0 1 = Some s"
    by auto
  have wf: "wfGame s" by (rule wfGame_toggleFlag[OF newGame_wf s(1)])
  have fs: "status s = Idle" "difficulty s = Beginner"
    by (subst s(4), simp add: newGame_fields)+
  have st': "status s \<noteq> Won \<and> status s \<noteq> Lost \<and>
             cellAt (grid s) (int 0) (int 1) = Some (?x\<lparr>isFlagged := True\<rparr>) \<and>
             \<not> isRevealed (?x\<lparr>isFlagged := True\<rparr>)"
    using s(2) fs by simp
  have d: "drawsSuffice (DIFFICULTIES (difficulty s)) 0 1 cornerDraws"
    unfolding fs by (rule cornerDraws_suffice(1))
  from toggleFlag_flips_and_blocks[OF wf, of 0 1 cornerDraws] st' s(5) d
  obtain s'' where "revealCell cornerDraws newGame 0 1 = Some s''"
    "\<exists>y. cellAt (grid s'') (int 0) (int 1) = Some y \<and> isRevealed y"
    "mineCount newGame = mineCount s + 1"
    by auto
  with s show ?thesis by auto
qed

theorem first_reveal_opens_block_witness:
  "revealCell cornerDraws flaggedStart 0 0 = Some flaggedClick \<and>
   isFlagged (grid flaggedClick ! 0 ! 1) \<and> \<not> isRevealed (grid flaggedClick ! 0 ! 1) \<and>
   \<not> isFlagged (grid flaggedClick ! 1 ! 1) \<and> isRevealed (grid flaggedClick ! 1 ! 1)"
proof -
  have wf: "wfGame flaggedStart" by (rule wfGame_toggleFlag[OF newGame_wf flaggedStart_run])
  have x: "cellAt (grid flaggedStart) (int 0) (int 0) = Some (grid flaggedStart ! 0 ! 0)"
    using flaggedStart_facts(3) by simp
  note t = first_reveal_opens_block[OF wf flaggedStart_facts(1) x flaggedStart_facts(4,5),
      of cornerDraws]
  have d: "drawsSuffice (DIFFICULTIES (difficulty flaggedStart)) 0 0 cornerDraws"
    unfolding flaggedStart_facts(2) by (rule cornerDraws_suffice(2))
  from t d obtain s' where s': "revealCell cornerDraws flaggedStart 0 0 = Some s'" by blast
  with flaggedClick_run have e: "s' = flaggedClick" by simp
  have o: "(0, 1) \<in> set offsets" "(1, 1) \<in> set offsets" by (simp_all add: set_offsets)
  have f: "cellAt (grid flaggedStart) (int 0 + 0) (int 0 + 1) = Some (grid flaggedStart ! 0 ! 1)"
    using flaggedStart_facts(6) by simp
  have u: "cellAt (grid flaggedClick) (int 0 + 1) (int 0 + 1) = Some (grid flaggedClick ! 1 ! 1)"
    using flaggedClick_facts(4) by simp
  from t s' e o(1) f flaggedStart_facts(7)
  obtain y where y: "cellAt (grid flaggedClick) (int 0 + 0) (int 0 + 1) = Some y" "isFlagged y"
    "isRevealed y = isRevealed (grid flaggedStart ! 0 ! 1)" by blast
  from y(1) flaggedClick_facts(1) have ye: "y = grid flaggedClick ! 0 ! 1" by simp
  from t s' e o(2) u flaggedClick_facts(5) have "isRevealed (grid flaggedClick ! 1 ! 1)" by blast
  with y ye flaggedStart_facts(8) flaggedClick_facts(5) flaggedClick_run show ?thesis by simp
qed

subsection \<open>A region cut by cells revealed before\<close>

text \<open>
  C4 as it is stated fails on the example game. The cells \<open>(0, 0)\<close> and \<open>(0, 2)\<close> are flagged,
  the first reveal at \<open>(4, 4)\<close> opens every other cell that is no mine, then both flags are
  taken off. The cells \<open>(0, 0)\<close>, \<open>(0, 1)\<close> and \<open>(0, 2)\<close> all count 0, so \<open>(0, 2)\<close> is in the
  region around \<open>(0, 0)\<close>; the reveal of \<open>(0, 0)\<close> stops at \<open>(0, 1)\<close>, which is revealed
  already, and \<open>(0, 2)\<close> stays unrevealed.
\<close>

definition farDraws :: "(nat \<times> nat) list" where
  "farDraws = [(8, 8), (8, 7), (8, 6), (8, 5), (8, 4), (8, 3), (8, 2), (8, 1), (8, 0), (7, 8)]"

definition oneFlag :: Game where
  "oneFlag = the (toggleFlag newGame 0 0)"

definition twoFlags :: Game where
  "twoFlags = the (toggleFlag oneFlag 0 2)"

definition opened :: Game where
  "opened = the (revealCell farDraws twoFlags 4 4)"

definition oneLess :: Game where
  "oneLess = the (toggleFlag opened 0 0)"

definition reopened :: Game where
  "reopened = the (toggleFlag oneLess 0 2)"

definition cornerClick :: Game where
  "cornerClick = the (revealCell [] reopened 0 0)"

lemma cut_eval:
  "(case toggleFlag newGame 0 0 of None \<Rightarrow> False | Some s1 \<Rightarrow>
    (case toggleFlag s1 0 2 of None \<Rightarrow> False | Some s2 \<Rightarrow>
    (case revealCell farDraws s2 4 4 of None \<Rightarrow> False | Some s3 \<Rightarrow>
    (case toggleFlag s3 0 0 of None \<Rightarrow> False | Some s4 \<Rightarrow>
    (case toggleFlag s4 0 2 of None \<Rightarrow> False | Some s5 \<Rightarrow>
       status s5 = Playing \<and>
       cellAt (grid s5) 0 0 = Some (grid s5 ! 0 ! 0) \<and> \<not> isRevealed (grid s5 ! 0 ! 0) \<and>
       \<not> isFlagged (grid s5 ! 0 ! 0) \<and> \<not> isMine (grid s5 ! 0 ! 0) \<and>
       neighborMines (grid s5 ! 0 ! 0) = 0 \<and>
       spreads (grid s5) 0 0 \<and> spreads (grid s5) 0 1 \<and> spreads (grid s5) 0 2 \<and>
       unflagged (grid s5) 0 1 \<and> unflagged (grid s5) 0 2 \<and>
       (case revealCell [] s5 0 0 of None \<Rightarrow> False | Some s6 \<Rightarrow>
          reveal (grid s5) s5 0 0 = Some (grid s6, s5) \<and>
          cellAt (grid s6) 0 2 = Some (grid s6 ! 0 ! 2) \<and> \<not> isRevealed (grid s6 ! 0 ! 2)))))))"
  by code_simp

lemma oneFlag_run: "toggleFlag newGame 0 0 = Some oneFlag"
  using cut_eval by (simp add: oneFlag_def split: option.splits)

lemma twoFlags_run: "toggleFlag oneFlag 0 2 = Some twoFlags"
  using cut_eval unfolding oneFlag_run option.case
  by (simp add: twoFlags_def split: option.splits)

lemma opened_run: "revealCell farDraws twoFlags 4 4 = Some opened"
  using cut_eval unfolding oneFlag_run twoFlags_run option.case
  by (simp add: opened_def split: option.splits)

lemma oneLess_run: "toggleFlag opened 0 0 = Some oneLess"
  using cut_eval unfolding oneFlag_run twoFlags_run opened_run option.case
  by (simp add: oneLess_def split: option.splits)

lemma reopened_run: "toggleFlag oneLess 0 2 = Some reopened"
  using cut_eval unfolding oneFlag_run twoFlags_run opened_run oneLess_run option.case
  by (simp add: reopened_def split: option.splits)

lemma reopened_eval:
  "status reopened = Playing \<and>
   cellAt (grid reopened) 0 0 = Some (grid reopened ! 0 ! 0) \<and> \<not> isRevealed (grid reopened ! 0 ! 0) \<and>
   \<not> isFlagged (grid reopened ! 0 ! 0) \<and> \<not> isMine (grid reopened ! 0 ! 0) \<and>
   neighborMines (grid reopened ! 0 ! 0) = 0 \<and>
   spreads (grid reopened) 0 0 \<and> spreads (grid reopened) 0 1 \<and> spreads (grid reopened) 0 2 \<and>
   unflagged (grid reopened) 0 1 \<and> unflagged (grid reopened) 0 2 \<and>
   (case revealCell [] reopened 0 0 of None \<Rightarrow> False | Some s6 \<Rightarrow>
      reveal (grid reopened) reopened 0 0 = Some (grid s6, reopened) \<and>
      cellAt (grid s6) 0 2 = Some (grid s6 ! 0 ! 2) \<and> \<not> isRevealed (grid s6 ! 0 ! 2))"
  using cut_eval
  unfolding oneFlag_run twoFlags_run opened_run oneLess_run reopened_run option.case .

lemma reopened_facts:
  "status reopened = Playing"
  "cellAt (grid reopened) 0 0 = Some (grid reopened ! 0 ! 0)" "\<not> isRevealed (grid reopened ! 0 ! 0)"
  "\<not> isFlagged (grid reopened ! 0 ! 0)" "\<not> isMine (grid reopened ! 0 ! 0)"
  "neighborMines (grid reopened ! 0 ! 0) = 0"
  "spreads (grid reopened) 0 0" "spreads (grid reopened) 0 1" "spreads (grid reopened) 0 2"
  "unflagged (grid reopened) 0 1" "unflagged (grid reopened) 0 2"
  "revealCell [] reopened 0 0 \<noteq> None"
  using reopened_eval by (simp_all split: option.splits)

lemma cornerClick_run: "revealCell [] reopened 0 0 = Some cornerClick"
  using reopened_facts(12) by (simp add: cornerClick_def)

lemma cornerClick_facts:
  "reveal (grid reopened) reopened 0 0 = Some (grid cornerClick, reopened)"
  "cellAt (grid cornerClick) 0 2 = Some (grid cornerClick ! 0 ! 2)"
  "\<not> isRevealed (grid cornerClick ! 0 ! 2)"
  using reopened_eval unfolding cornerClick_run option.case by simp_all

lemma reopened_region: "(0, 2) \<in> regionWithBorder (grid reopened) 0 0"
proof -
  have o: "(0, 1) \<in> set offsets" by (simp add: set_offsets)
  have a: "(0, 0) \<in> zeroRegion (grid reopened) 0 0"
    by (rule zeroRegion.origin[OF reopened_facts(7)])
  have "(0 + 0, 0 + 1) \<in> zeroRegion (grid reopened) 0 0"
    by (rule zeroRegion.grow[OF a o]) (simp_all add: reopened_facts)
  then have b: "(0, 1) \<in> zeroRegion (grid reopened) 0 0" by simp
  have "(0 + 0, 1 + 1) \<in> zeroRegion (grid reopened) 0 0"
    by (rule zeroRegion.grow[OF b o]) (simp_all add: reopened_facts)
  then show ?thesis by (simp add: regionWithBorder_def)
qed

theorem reveal_region_counterexample:
  "toggleFlag newGame 0 0 = Some oneFlag \<and> toggleFlag oneFlag 0 2 = Some twoFlags \<and>
   revealCell farDraws twoFlags 4 4 = Some opened \<and> toggleFlag opened 0 0 = Some oneLess \<and>
   toggleFlag oneLess 0 2 = Some reopened \<and> status reopened = Playing \<and>
   cellAt (grid reopened) 0 0 = Some (grid reopened ! 0 ! 0) \<and>
   \<not> isRevealed (grid reopened ! 0 ! 0) \<and> \<not> isFlagged (grid reopened ! 0 ! 0) \<and>
   \<not> isMine (grid reopened ! 0 ! 0) \<and> neighborMines (grid reopened ! 0 ! 0) = 0 \<and>
   (0, 2) \<in> regionWithBorder (grid reopened) 0 0 \<and>
   revealCell [] reopened 0 0 = Some cornerClick \<and>
   reveal (grid reopened) reopened 0 0 = Some (grid cornerClick, reopened) \<and>
   cellAt (grid cornerClick) 0 2 = Some (grid cornerClick ! 0 ! 2) \<and>
   \<not> isRevealed (grid cornerClick ! 0 ! 2)"
  using oneFlag_run twoFlags_run opened_run oneLess_run reopened_run reopened_facts(1-6)
    reopened_region cornerClick_run cornerClick_facts
  by simp

end
